theory Spec2Isabelle
  imports Complex_Main "HOL-Library.Word"
begin

section \<open>Strings, numbers and the random source\<close>

text \<open>
  A JavaScript string is a sequence of UTF-16 code units. The decoy glyph set of
  \<^verbatim>\<open>main.ts\<close> holds two code units beyond ASCII (U+00B7 and U+20AC), so text is
  modelled as a list of 16-bit words. CSS values and class names, which the code only
  writes as ASCII literals, are HOL strings. A JavaScript number is modelled as a real:
  the delays and the random values are used by the code only in sums, products,
  comparisons and \<^verbatim>\<open>Math.floor\<close>.
\<close>

type_synonym jschar = "16 word"
type_synonym jsstring = "jschar list"

definition ascii :: "string \<Rightarrow> jsstring" where
  "ascii s = map of_char s"

text \<open>
  \<^verbatim>\<open>Math.random()\<close> is a source of numbers: \<open>R n\<close> is the value of the \<open>n\<close>-th call.
  Its contract is \<open>0 \<le> R n < 1\<close>; the functions below take \<open>R\<close> and count the calls.
\<close>

type_synonym random = "nat \<Rightarrow> real"

definition unit_interval :: "random \<Rightarrow> bool" where
  "unit_interval R \<longleftrightarrow> (\<forall>n. 0 \<le> R n \<and> R n < 1)"

text \<open>\<^verbatim>\<open>const SCRAMBLE_CHARS = "##\<cdot>$%&/=\<euro>|()@+09*+]}{[";\<close> (line 54), as code units.\<close>

definition SCRAMBLE_CHARS :: jsstring where
  "SCRAMBLE_CHARS =
     [35, 35, 183, 36, 37, 38, 47, 61, 8364, 124, 40, 41, 64, 43, 48, 57, 42, 43, 93, 125, 123, 91]"

text \<open>
  \<^verbatim>\<open>s[i]\<close> for a number \<open>i\<close>: the one-unit string at an index inside the string,
  \<^verbatim>\<open>undefined\<close> (here \<open>None\<close>) everywhere else.
\<close>

definition js_index :: "jsstring \<Rightarrow> int \<Rightarrow> jsstring option" where
  "js_index s i = (if 0 \<le> i \<and> i < int (length s) then Some [s ! nat i] else None)"

text \<open>\<^verbatim>\<open>SCRAMBLE_CHARS[Math.floor(Math.random() * SCRAMBLE_CHARS.length)]\<close> (lines 79, 172).\<close>

definition random_glyph :: "real \<Rightarrow> jsstring option" where
  "random_glyph r = js_index SCRAMBLE_CHARS \<lfloor>r * real (length SCRAMBLE_CHARS)\<rfloor>"

section \<open>The document: character cells and their spans\<close>

text \<open>
  A span carries its class, its text and the inline styles the code touches. A character
  cell is the wrapper the splitter made for one character; its children are spans, in
  document order. An element prepared for the effect is the list of its cells.
\<close>

datatype transition = NoTransition | OpacityEase real

record span =
  cls :: string
  textContent :: jsstring
  display :: string
  opacity :: string
  position :: string
  left :: string
  transition :: transition
  color :: string
  aria_hidden :: bool

record cell =
  children :: "span list"
  cell_position :: string
  cell_display :: string

type_synonym element = "cell list"

text \<open>A reference to a span: the index of its cell and its index among the cell's children.\<close>

type_synonym ref = "nat \<times> nat"

definition get_span :: "ref \<Rightarrow> element \<Rightarrow> span" where
  "get_span r el = children (el ! fst r) ! snd r"

definition upd_span :: "ref \<Rightarrow> (span \<Rightarrow> span) \<Rightarrow> element \<Rightarrow> element" where
  "upd_span r f el =
     (if fst r < length el \<and> snd r < length (children (el ! fst r))
      then el[fst r := (el ! fst r)\<lparr>children := (children (el ! fst r))[snd r := f (get_span r el)]\<rparr>]
      else el)"

text \<open>\<^verbatim>\<open>char.querySelectorAll(c)\<close> on one cell, and \<^verbatim>\<open>el.querySelectorAll(c)\<close> on the element.\<close>

definition cell_querySelectorAll :: "string \<Rightarrow> element \<Rightarrow> nat \<Rightarrow> ref list" where
  "cell_querySelectorAll c el i =
     map (Pair i) (filter (\<lambda>j. cls (children (el ! i) ! j) = c) [0..<length (children (el ! i))])"

definition querySelectorAll :: "string \<Rightarrow> element \<Rightarrow> ref list" where
  "querySelectorAll c el = concat (map (cell_querySelectorAll c el) [0..<length el])"

text \<open>\<^verbatim>\<open>char.querySelector(c)\<close>: the first match, or \<^verbatim>\<open>null\<close>.\<close>

definition cell_querySelector :: "string \<Rightarrow> element \<Rightarrow> nat \<Rightarrow> ref option" where
  "cell_querySelector c el i =
     (case cell_querySelectorAll c el i of [] \<Rightarrow> None | r # _ \<Rightarrow> Some r)"

text \<open>\<^verbatim>\<open>real.parentElement\<close>.\<close>

definition parentElement :: "ref \<Rightarrow> nat" where
  "parentElement r = fst r"

section \<open>The text splitter\<close>

text \<open>
  Modelled from the spec: \<^verbatim>\<open>splitText(el, { chars: true })\<close> is imported from the
  animation library and is not part of \<^verbatim>\<open>main.ts\<close>. The specification says it makes one
  wrapper per character and omits the whitespace units. A character is a code point,
  as in the iteration \<^verbatim>\<open>[...nextText]\<close> with which line 364 rebuilds the cells of the
  clock: a high surrogate followed by a low surrogate is one character, every other code
  unit is a character of its own. Whitespace is the class \<^verbatim>\<open>\s\<close> of JavaScript.
  The result is the content of each wrapper, in order.
\<close>

definition is_whitespace_unit :: "jschar \<Rightarrow> bool" where
  "is_whitespace_unit u \<longleftrightarrow>
     u \<in> set [9, 10, 11, 12, 13, 32, 160, 5760, 8232, 8233, 8239, 8287, 12288, 65279]
     \<or> (8192 \<le> u \<and> u \<le> 8202)"

definition high_surrogate :: "jschar \<Rightarrow> bool" where
  "high_surrogate u \<longleftrightarrow> 55296 \<le> u \<and> u \<le> 56319"

definition low_surrogate :: "jschar \<Rightarrow> bool" where
  "low_surrogate u \<longleftrightarrow> 56320 \<le> u \<and> u \<le> 57343"

fun characters :: "jsstring \<Rightarrow> jsstring list" where
  "characters [] = []"
| "characters [u] = [[u]]"
| "characters (u # v # rest) =
     (if high_surrogate u \<and> low_surrogate v then [u, v] # characters rest
      else [u] # characters (v # rest))"

definition is_whitespace :: "jsstring \<Rightarrow> bool" where
  "is_whitespace ch \<longleftrightarrow> ch \<noteq> [] \<and> list_all is_whitespace_unit ch"

definition splitText :: "jsstring \<Rightarrow> jsstring list" where
  "splitText str = filter (\<lambda>ch. \<not> is_whitespace ch) (characters str)"

section \<open>scramblePrepare (lines 70 to 89)\<close>

definition real_span :: "jsstring \<Rightarrow> span" where
  "real_span original =
     \<lparr>cls = ''scramble-real'', textContent = original, display = '''', opacity = '''',
      position = '''', left = '''', transition = NoTransition, color = '''',
      aria_hidden = False\<rparr>"

definition fake_span :: "jsstring \<Rightarrow> span" where
  "fake_span rnd =
     \<lparr>cls = ''scramble-fake'', textContent = rnd, display = ''none'', opacity = '''',
      position = ''absolute'', left = ''0'', transition = NoTransition, color = '''',
      aria_hidden = True\<rparr>"

text \<open>
  The template literal \<^verbatim>\<open>${rnd}\<close> writes the text \<^verbatim>\<open>undefined\<close> for an index outside
  the glyph string.
\<close>

definition template_text :: "jsstring option \<Rightarrow> jsstring" where
  "template_text v = (case v of None \<Rightarrow> ascii ''undefined'' | Some s \<Rightarrow> s)"

text \<open>
  The inner loop \<^verbatim>\<open>for (let i = 0; i < fakeCount; i++)\<close>: each round draws a glyph and
  inserts a fake span before the cell's first child. The state is the children and the
  number of random values drawn so far.
\<close>

function insert_fakes :: "random \<Rightarrow> real \<Rightarrow> nat \<Rightarrow> span list \<times> nat \<Rightarrow> span list \<times> nat" where
  "insert_fakes R fakeCount i (cs, n) =
     (if real i < fakeCount
      then insert_fakes R fakeCount (Suc i) (fake_span (template_text (random_glyph (R n))) # cs, Suc n)
      else (cs, n))"
  by pat_completeness auto
termination
  by (relation "measure (\<lambda>(R, fakeCount, i, s). nat \<lceil>fakeCount\<rceil> - i)") (auto, linarith)

declare insert_fakes.simps [simp del]

definition prepare_char :: "random \<Rightarrow> real \<Rightarrow> jsstring \<Rightarrow> nat \<Rightarrow> cell \<times> nat" where
  "prepare_char R fakeCount original n =
     (let (cs, n') = insert_fakes R fakeCount 0 ([real_span original], n)
      in (\<lparr>children = cs, cell_position = ''relative'', cell_display = ''inline-block''\<rparr>, n'))"

text \<open>The outer loop \<^verbatim>\<open>for (const char of splitter.chars)\<close>.\<close>

fun prepare_chars :: "random \<Rightarrow> real \<Rightarrow> jsstring list \<Rightarrow> nat \<Rightarrow> element \<times> nat" where
  "prepare_chars R fakeCount [] n = ([], n)"
| "prepare_chars R fakeCount (original # rest) n =
     (let (c, n') = prepare_char R fakeCount original n;
          (el, n'') = prepare_chars R fakeCount rest n'
      in (c # el, n''))"

text \<open>
  \<^verbatim>\<open>scramblePrepare(el, fakeCount = 2)\<close>: the element comes in as its text, the optional
  argument as an option.
\<close>

definition scramblePrepare :: "random \<Rightarrow> jsstring \<Rightarrow> real option \<Rightarrow> nat \<Rightarrow> element \<times> nat" where
  "scramblePrepare R str fakeCount n =
     prepare_chars R (case fakeCount of None \<Rightarrow> 2 | Some k \<Rightarrow> k) (splitText str) n"

section \<open>Timers and the scramble session\<close>

text \<open>
  Every \<^verbatim>\<open>setTimeout\<close> callback of the scramble engine is one of five closures. A task
  names the closure and the spans it captured.
\<close>

datatype task =
    FakeShow ref
  | FakeHide ref
  | RevealFade ref real
  | SweepHide ref "jsstring option"
  | SweepRestore ref nat

text \<open>The default of the parameter \<^verbatim>\<open>transform\<close> is \<^verbatim>\<open>(e) => { }\<close>.\<close>

definition no_transform :: "span \<Rightarrow> span" where
  "no_transform e = e"

text \<open>
  The session is what the calls of \<^verbatim>\<open>scrambleReveal\<close> and \<^verbatim>\<open>scrambleSweep\<close> on one
  element read and write: the cells of the element, the element's own opacity, the
  timers registered and not yet fired (delay in milliseconds and task, in registration
  order), and the number of random values drawn. Every call of \<^verbatim>\<open>scrambleSweep\<close>
  has a closure of its own, with its parameter \<^verbatim>\<open>transform\<close> and its variable
  \<^verbatim>\<open>transformCancelled\<close> (line 154). The calls are numbered: \<open>calls\<close> counts them,
  \<open>transform_of c\<close> and \<open>transformCancelled c\<close> are the two variables of the closure
  of call \<open>c\<close>, and the restore task carries the number of the call that registered it.
\<close>

record session =
  cells :: element
  el_opacity :: string
  pending :: "(real \<times> task) list"
  calls :: nat
  transform_of :: "nat \<Rightarrow> span \<Rightarrow> span"
  transformCancelled :: "nat \<Rightarrow> bool"
  draws :: nat

definition new_session :: "element \<times> nat \<Rightarrow> session" where
  "new_session p =
     \<lparr>cells = fst p, el_opacity = [], pending = [], calls = 0,
      transform_of = (\<lambda>c. no_transform), transformCancelled = (\<lambda>c. False), draws = snd p\<rparr>"

text \<open>The bodies of the five callbacks (lines 123 to 137 and 177 to 203).\<close>

fun exec :: "task \<Rightarrow> session \<Rightarrow> session" where
  "exec (FakeShow fake) s =
     s\<lparr>cells := upd_span fake (\<lambda>sp. sp\<lparr>display := ''block'', opacity := ''1''\<rparr>) (cells s)\<rparr>"
| "exec (FakeHide fake) s =
     s\<lparr>cells := upd_span fake (\<lambda>sp. sp\<lparr>display := ''none''\<rparr>) (cells s)\<rparr>"
| "exec (RevealFade rl revealDur) s =
     s\<lparr>cells := upd_span rl (\<lambda>sp. sp\<lparr>transition := OpacityEase revealDur, opacity := ''1''\<rparr>) (cells s)\<rparr>"
| "exec (SweepHide rl newChar) s =
     s\<lparr>cells :=
         (let el = upd_span rl (\<lambda>sp. sp\<lparr>opacity := ''0''\<rparr>) (cells s)
          in case newChar of
               None \<Rightarrow> el
             | Some c \<Rightarrow> upd_span rl (\<lambda>sp. sp\<lparr>textContent := c\<rparr>) el)\<rparr>"
| "exec (SweepRestore rl c) s =
     s\<lparr>cells :=
         (let el = upd_span rl (\<lambda>sp. sp\<lparr>opacity := ''1''\<rparr>) (cells s)
          in if \<not> transformCancelled s c then upd_span rl (transform_of s c) el else el)\<rparr>"

text \<open>
  The event loop fires one pending timer and removes it. \<open>fire\<close> takes the position of the
  timer in the pending list, so that a property proved for every position holds for the
  order the browser chooses; \<open>next_due\<close> is that order (least delay, first registered).
\<close>

definition fire :: "nat \<Rightarrow> session \<Rightarrow> session" where
  "fire k s =
     (if k < length (pending s)
      then exec (snd (pending s ! k)) (s\<lparr>pending := take k (pending s) @ drop (Suc k) (pending s)\<rparr>)
      else s)"

fun next_due_from :: "nat \<Rightarrow> real \<Rightarrow> nat \<Rightarrow> (real \<times> task) list \<Rightarrow> nat" where
  "next_due_from best d k [] = best"
| "next_due_from best d k (t # ts) =
     (if fst t < d then next_due_from k (fst t) (Suc k) ts else next_due_from best d (Suc k) ts)"

definition next_due :: "(real \<times> task) list \<Rightarrow> nat" where
  "next_due ts = (case ts of [] \<Rightarrow> 0 | t # rest \<Rightarrow> next_due_from 0 (fst t) 1 rest)"

text \<open>
  The function call \<open>c\<close> of \<^verbatim>\<open>scrambleSweep\<close> returns,
  \<^verbatim>\<open>() => { transformCancelled = true; }\<close> (line 206): it sets the variable of that
  call's closure and no other.
\<close>

definition cancel :: "nat \<Rightarrow> session \<Rightarrow> session" where
  "cancel c s = s\<lparr>transformCancelled := (transformCancelled s)(c := True)\<rparr>"

section \<open>Options\<close>

record ScrambleOptions =
  fakeCount :: "real option"
  charStagger :: "real option"
  fakeDuration :: "real option"
  fakeStagger :: "real option"
  revealDuration :: "real option"
  startDelay :: "real option"

definition no_options :: ScrambleOptions where
  "no_options =
     \<lparr>fakeCount = None, charStagger = None, fakeDuration = None, fakeStagger = None,
      revealDuration = None, startDelay = None\<rparr>"

definition default :: "'a \<Rightarrow> 'a option \<Rightarrow> 'a" where
  "default d v = (case v of None \<Rightarrow> d | Some x \<Rightarrow> x)"

section \<open>scrambleReveal (lines 95 to 139)\<close>

text \<open>
  \<^verbatim>\<open>char.querySelector(".scramble-real")!\<close> is \<^verbatim>\<open>null\<close> in a cell without a real span,
  and the access to its style then throws: the result \<open>None\<close>.
\<close>

fun reveal_hide :: "nat list \<Rightarrow> element \<Rightarrow> element option" where
  "reveal_hide [] el = Some el"
| "reveal_hide (char # rest) el =
     (case cell_querySelector ''scramble-real'' el char of
        None \<Rightarrow> None
      | Some rl \<Rightarrow> reveal_hide rest (upd_span rl (\<lambda>sp. sp\<lparr>opacity := ''0''\<rparr>) el))"

fun reveal_fakes :: "real \<Rightarrow> real \<Rightarrow> real \<Rightarrow> ref list \<Rightarrow> nat \<Rightarrow> (real \<times> task) list" where
  "reveal_fakes fStagger fDuration baseDelay [] fi = []"
| "reveal_fakes fStagger fDuration baseDelay (fake # rest) fi =
     (let fakeDelay = baseDelay + (real fi + 1) * fStagger
      in [(fakeDelay * 1000, FakeShow fake), ((fakeDelay + fDuration) * 1000, FakeHide fake)]
         @ reveal_fakes fStagger fDuration baseDelay rest (Suc fi))"

fun reveal_loop ::
  "real \<Rightarrow> real \<Rightarrow> real \<Rightarrow> real \<Rightarrow> real \<Rightarrow> nat list \<Rightarrow> nat \<Rightarrow> session \<Rightarrow> session option" where
  "reveal_loop cStagger fDuration fStagger rDuration sDelay [] i s = Some s"
| "reveal_loop cStagger fDuration fStagger rDuration sDelay (char # rest) i s =
     (case cell_querySelector ''scramble-real'' (cells s) char of
        None \<Rightarrow> None
      | Some rl \<Rightarrow>
          (let fakes = cell_querySelectorAll ''scramble-fake'' (cells s) char;
               baseDelay = sDelay + real i * cStagger
           in reveal_loop cStagger fDuration fStagger rDuration sDelay rest (Suc i)
                (s\<lparr>pending := pending s
                      @ reveal_fakes fStagger fDuration baseDelay fakes 0
                      @ [(baseDelay * 1000, RevealFade rl rDuration)]\<rparr>)))"

definition scrambleReveal :: "ScrambleOptions \<Rightarrow> session \<Rightarrow> session option" where
  "scrambleReveal options s =
     (let cStagger = default 0.05 (charStagger options);
          fDuration = default 0.16 (fakeDuration options);
          fStagger = default 0.016 (fakeStagger options);
          rDuration = default 0.3 (revealDuration options);
          sDelay = default 0 (startDelay options);
          chars = map parentElement (querySelectorAll ''scramble-real'' (cells s));
          s1 = s\<lparr>el_opacity := ''1''\<rparr>
      in case reveal_hide chars (cells s1) of
           None \<Rightarrow> None
         | Some el \<Rightarrow>
             reveal_loop cStagger fDuration fStagger rDuration sDelay chars 0 (s1\<lparr>cells := el\<rparr>))"

section \<open>scrambleSweep (lines 146 to 207)\<close>

text \<open>\<^verbatim>\<open>newChars ? newChars[i] : null\<close>: an index outside the array reads \<^verbatim>\<open>undefined\<close>.\<close>

definition new_char :: "jsstring list option \<Rightarrow> nat \<Rightarrow> jsstring option" where
  "new_char newChars i =
     (case newChars of
        None \<Rightarrow> None
      | Some cs \<Rightarrow> if i < length cs then Some (cs ! i) else None)"

text \<open>
  Lines 171 to 174: each fake of the cell gets a fresh glyph (assigning \<^verbatim>\<open>undefined\<close> to
  \<^verbatim>\<open>textContent\<close> empties it) and, unless \<^verbatim>\<open>transformCancelled\<close> is set, the transform.
\<close>

definition assigned_text :: "jsstring option \<Rightarrow> jsstring" where
  "assigned_text v = (case v of None \<Rightarrow> [] | Some t \<Rightarrow> t)"

fun sweep_fakes :: "random \<Rightarrow> (span \<Rightarrow> span) \<Rightarrow> nat \<Rightarrow> ref list \<Rightarrow> session \<Rightarrow> session" where
  "sweep_fakes R tr c [] s = s"
| "sweep_fakes R tr c (fake # rest) s =
     sweep_fakes R tr c rest
       (let el = upd_span fake (\<lambda>sp. sp\<lparr>textContent := assigned_text (random_glyph (R (draws s)))\<rparr>) (cells s)
        in s\<lparr>cells := (if \<not> transformCancelled s c then upd_span fake tr el else el),
             draws := Suc (draws s)\<rparr>)"

text \<open>Lines 185 to 196: the two timers of each fake.\<close>

fun sweep_fake_timers :: "real \<Rightarrow> real \<Rightarrow> real \<Rightarrow> ref list \<Rightarrow> nat \<Rightarrow> (real \<times> task) list" where
  "sweep_fake_timers fStagger fDuration baseDelay [] fi = []"
| "sweep_fake_timers fStagger fDuration baseDelay (fake # rest) fi =
     (let fakeDelay = baseDelay + real fi * fStagger
      in [(fakeDelay * 1000, FakeShow fake), ((fakeDelay + fDuration) * 1000, FakeHide fake)]
         @ sweep_fake_timers fStagger fDuration baseDelay rest (Suc fi))"

text \<open>
  The body of \<^verbatim>\<open>reals.forEach((real, i) => ...)\<close>, with the counter \<^verbatim>\<open>sweepIndex\<close>
  that the code keeps beside \<open>i\<close>.
\<close>

fun sweep_loop ::
  "random \<Rightarrow> (span \<Rightarrow> span) \<Rightarrow> nat \<Rightarrow> real \<Rightarrow> real \<Rightarrow> real \<Rightarrow> real \<Rightarrow> jsstring list option
     \<Rightarrow> ref list \<Rightarrow> nat \<Rightarrow> nat \<Rightarrow> session \<Rightarrow> session" where
  "sweep_loop R tr c cStagger fDuration fStagger sDelay newChars [] i sweepIndex s = s"
| "sweep_loop R tr c cStagger fDuration fStagger sDelay newChars (rl # rest) i sweepIndex s =
     (let char = parentElement rl;
          fakes = cell_querySelectorAll ''scramble-fake'' (cells s) char;
          newChar = new_char newChars i;
          baseDelay = sDelay + real sweepIndex * cStagger;
          s1 = sweep_fakes R tr c fakes s;
          restoreDelay = baseDelay + real (length fakes) * fStagger + fDuration
      in sweep_loop R tr c cStagger fDuration fStagger sDelay newChars rest (Suc i) (Suc sweepIndex)
           (s1\<lparr>pending := pending s1
                  @ [(baseDelay * 1000, SweepHide rl newChar)]
                  @ sweep_fake_timers fStagger fDuration baseDelay fakes 0
                  @ [(restoreDelay * 1000, SweepRestore rl c)]\<rparr>))"

text \<open>
  A call of \<^verbatim>\<open>scrambleSweep\<close> on the session \<open>s\<close> is call number \<open>calls s\<close>: it
  creates its closure (the transform passed and a flag that is false) and runs the loop.
  The function it returns is \<open>cancel (calls s)\<close>.
\<close>

definition scrambleSweep ::
  "random \<Rightarrow> (span \<Rightarrow> span) \<Rightarrow> ScrambleOptions \<Rightarrow> jsstring list option \<Rightarrow> session \<Rightarrow> session" where
  "scrambleSweep R tr options newChars s =
     (let cStagger = default 0.05 (charStagger options);
          fDuration = default 0.12 (fakeDuration options);
          fStagger = default 0.016 (fakeStagger options);
          sDelay = default 0 (startDelay options);
          c = calls s;
          s0 = s\<lparr>calls := Suc c, transform_of := (transform_of s)(c := tr),
                 transformCancelled := (transformCancelled s)(c := False)\<rparr>;
          reals = querySelectorAll ''scramble-real'' (cells s0)
      in sweep_loop R tr c cStagger fDuration fStagger sDelay newChars reals 0 0 s0)"

section \<open>Events of a session\<close>

text \<open>
  What can happen to a session after a call: a pending timer fires (at a given position
  of the list, or the one due next), the function returned by call \<open>c\<close> is invoked, or
  \<^verbatim>\<open>scrambleSweep\<close> is called again on the element.
\<close>

datatype event =
    Fire nat
  | Tick
  | Cancel nat
  | Sweep "span \<Rightarrow> span" ScrambleOptions "jsstring list option"

fun step :: "random \<Rightarrow> event \<Rightarrow> session \<Rightarrow> session" where
  "step R (Fire k) s = fire k s"
| "step R Tick s = fire (next_due (pending s)) s"
| "step R (Cancel c) s = cancel c s"
| "step R (Sweep tr options newChars) s = scrambleSweep R tr options newChars s"

definition run :: "random \<Rightarrow> event list \<Rightarrow> session \<Rightarrow> session" where
  "run R evs s = fold (step R) evs s"

text \<open>Events that only let timers fire or cancel a transform: no further call of the sweep.\<close>

fun timer_event :: "event \<Rightarrow> bool" where
  "timer_event (Sweep tr options newChars) = False"
| "timer_event ev = True"

section \<open>scrambleGetChars (lines 212 to 215)\<close>

definition scrambleGetChars :: "element \<Rightarrow> jsstring list" where
  "scrambleGetChars el =
     map (\<lambda>rl. let t = textContent (get_span rl el) in if t = [] then [] else t)
         (querySelectorAll ''scramble-real'' el)"

section \<open>Page (lines 219 to 249)\<close>

text \<open>
  The content container: its markup and the two inline styles the Page writes. Every Page
  of the application is built on the same container (\<^verbatim>\<open>this.contentEl\<close>), so a Page is
  its markup.
\<close>

record container =
  innerHTML :: jsstring
  c_opacity :: string
  c_transition :: string

record Page =
  page_html :: jsstring

record Route =
  path :: jsstring
  label :: jsstring
  html :: jsstring

text \<open>
  \<^verbatim>\<open>navigate\<close> is an async function. It stops at \<^verbatim>\<open>await this.currentPage.hide()\<close> and
  at \<^verbatim>\<open>await page.show()\<close>; either promise is resolved by a once-only
  \<^verbatim>\<open>transitionend\<close> listener on the container. A continuation is the rest of one call
  of \<^verbatim>\<open>navigate\<close> behind such a listener: after the hide it still holds the route chosen
  (\<^verbatim>\<open>undefined\<close> when the route table is empty), after the show the page to install.
\<close>

datatype continuation = AfterHide "Route option" | AfterShow Page

text \<open>
  The browser's session history: the entries behind the current one, the current path
  (\<^verbatim>\<open>window.location.pathname\<close>) and the entries ahead.
\<close>

record history =
  entries_back :: "jsstring list"
  pathname :: jsstring
  entries_forward :: "jsstring list"

text \<open>
  The application: the route table, the container, \<^verbatim>\<open>currentPage\<close>, the listeners
  waiting on the container in registration order, the history, and a log of the calls of
  the router's \<^verbatim>\<open>onNavigate\<close> callback (kept only to state that a call did or did not
  happen).
\<close>

record app =
  routes :: "Route list"
  contentEl :: container
  currentPage :: "Page option"
  listeners :: "continuation list"
  location :: history
  navigated :: "jsstring list"

definition create :: "Page \<Rightarrow> app \<Rightarrow> app" where
  "create page a = a\<lparr>contentEl := (contentEl a)\<lparr>innerHTML := page_html page\<rparr>\<rparr>"

text \<open>
  \<^verbatim>\<open>show\<close> writes opacity \<open>0\<close>, the transition and, after the layout read, opacity
  \<open>1\<close> in one synchronous run; the state it leaves is the last write. \<^verbatim>\<open>show\<close> and
  \<^verbatim>\<open>hide\<close> then register the once-only listener that resolves their promise; the
  argument is the continuation waiting for it.
\<close>

definition show_page :: "continuation \<Rightarrow> app \<Rightarrow> app" where
  "show_page k a =
     a\<lparr>contentEl := (contentEl a)\<lparr>c_transition := ''opacity 0.4s ease'', c_opacity := ''1''\<rparr>,
       listeners := listeners a @ [k]\<rparr>"

definition hide_page :: "continuation \<Rightarrow> app \<Rightarrow> app" where
  "hide_page k a =
     a\<lparr>contentEl := (contentEl a)\<lparr>c_transition := ''opacity 0.3s ease'', c_opacity := ''0''\<rparr>,
       listeners := listeners a @ [k]\<rparr>"

section \<open>Router (lines 259 to 292)\<close>

definition resolve :: "Route list \<Rightarrow> jsstring \<Rightarrow> Route option" where
  "resolve rs p = find (\<lambda>r. path r = p) rs"

section \<open>App.navigate (lines 441 to 452)\<close>

text \<open>\<^verbatim>\<open>this.routes[0]\<close>: \<^verbatim>\<open>undefined\<close> on an empty table.\<close>

definition first_route :: "Route list \<Rightarrow> Route option" where
  "first_route rs = (case rs of [] \<Rightarrow> None | r # _ \<Rightarrow> Some r)"

text \<open>\<^verbatim>\<open>this.router.resolve(path) ?? this.routes[0]\<close>.\<close>

definition route_for :: "Route list \<Rightarrow> jsstring \<Rightarrow> Route option" where
  "route_for rs p = (case resolve rs p of Some r \<Rightarrow> Some r | None \<Rightarrow> first_route rs)"

text \<open>
  The part of \<^verbatim>\<open>navigate\<close> behind the first \<^verbatim>\<open>await\<close>: build the page, inject its markup,
  start the fade-in and wait. Reading \<^verbatim>\<open>route.html\<close> of \<^verbatim>\<open>undefined\<close> throws; the
  promise of \<^verbatim>\<open>navigate\<close> is then rejected and nothing else is written.
\<close>

definition after_hide :: "Route option \<Rightarrow> app \<Rightarrow> app" where
  "after_hide route a =
     (case route of
        None \<Rightarrow> a
      | Some r \<Rightarrow>
          (let page = \<lparr>page_html = html r\<rparr>
           in show_page (AfterShow page) (create page a)))"

definition navigate :: "jsstring \<Rightarrow> app \<Rightarrow> app" where
  "navigate p a =
     (let route = route_for (routes a) p
      in case currentPage a of
           Some current \<Rightarrow> hide_page (AfterHide route) a
         | None \<Rightarrow> after_hide route a)"

fun resume :: "continuation \<Rightarrow> app \<Rightarrow> app" where
  "resume (AfterHide route) a = after_hide route a"
| "resume (AfterShow page) a = a\<lparr>currentPage := Some page\<rparr>"

text \<open>
  A \<^verbatim>\<open>transitionend\<close> event on the container runs the listeners registered when it is
  dispatched, each once, in registration order; a listener added meanwhile waits for
  the next event.
\<close>

definition transitionEnd :: "app \<Rightarrow> app" where
  "transitionEnd a = fold resume (listeners a) (a\<lparr>listeners := []\<rparr>)"

section \<open>Router.push and the two global listeners\<close>

definition onNavigate :: "jsstring \<Rightarrow> app \<Rightarrow> app" where
  "onNavigate p a = navigate p (a\<lparr>navigated := navigated a @ [p]\<rparr>)"

text \<open>
  \<^verbatim>\<open>window.history.pushState(null, "", path)\<close> drops the entries ahead and makes the
  resolved URL current. \<open>U cur path\<close> is the pathname of \<open>path\<close> resolved against the
  current one, or \<open>None\<close> when the browser refuses the URL (another origin) and
  \<^verbatim>\<open>pushState\<close> throws.
\<close>

datatype error = SecurityError

definition pushState :: "(jsstring \<Rightarrow> jsstring \<Rightarrow> jsstring option) \<Rightarrow> jsstring \<Rightarrow> history \<Rightarrow> error + history" where
  "pushState U p h =
     (case U (pathname h) p of
        None \<Rightarrow> Inl SecurityError
      | Some q \<Rightarrow> Inr \<lparr>entries_back = pathname h # entries_back h, pathname = q, entries_forward = []\<rparr>)"

definition push :: "(jsstring \<Rightarrow> jsstring \<Rightarrow> jsstring option) \<Rightarrow> jsstring \<Rightarrow> app \<Rightarrow> error + app" where
  "push U p a =
     (if p = pathname (location a) then Inr a
      else case pushState U p (location a) of
             Inl e \<Rightarrow> Inl e
           | Inr h \<Rightarrow> Inr (onNavigate p (a\<lparr>location := h\<rparr>)))"

definition startsWith :: "jsstring \<Rightarrow> jsstring \<Rightarrow> bool" where
  "startsWith s pre \<longleftrightarrow> take (length pre) s = pre"

definition endsWith :: "jsstring \<Rightarrow> jsstring \<Rightarrow> bool" where
  "endsWith s suf \<longleftrightarrow> length suf \<le> length s \<and> drop (length s - length suf) s = suf"

text \<open>
  The click listener (lines 271 to 280). The argument is the \<^verbatim>\<open>href\<close> attribute of the
  closest anchor, \<open>None\<close> without an anchor or an attribute. A link the listener lets
  through is followed by the browser and leaves the model unchanged; so does an exception
  thrown inside the listener.
\<close>

definition click :: "(jsstring \<Rightarrow> jsstring \<Rightarrow> jsstring option) \<Rightarrow> jsstring option \<Rightarrow> app \<Rightarrow> app" where
  "click U href a =
     (case href of
        None \<Rightarrow> a
      | Some h \<Rightarrow>
          if h = [] \<or> startsWith h (ascii ''http'') \<or> startsWith h (ascii ''#'')
             \<or> endsWith h (ascii ''.pdf'')
          then a
          else (case push U h a of Inl e \<Rightarrow> a | Inr a' \<Rightarrow> a'))"

text \<open>
  The \<^verbatim>\<open>popstate\<close> listener (lines 267 to 269) after the browser moved one entry back
  or forward.
\<close>

definition go_back :: "app \<Rightarrow> app" where
  "go_back a =
     (case entries_back (location a) of
        [] \<Rightarrow> a
      | p # ps \<Rightarrow>
          onNavigate p
            (a\<lparr>location := \<lparr>entries_back = ps, pathname = p,
                              entries_forward = pathname (location a) # entries_forward (location a)\<rparr>\<rparr>))"

definition go_forward :: "app \<Rightarrow> app" where
  "go_forward a =
     (case entries_forward (location a) of
        [] \<Rightarrow> a
      | p # ps \<Rightarrow>
          onNavigate p
            (a\<lparr>location := \<lparr>entries_back = pathname (location a) # entries_back (location a), pathname = p,
                              entries_forward = ps\<rparr>\<rparr>))"

datatype app_event = Click "jsstring option" | Back | Forward | TransitionEnd

fun app_step :: "(jsstring \<Rightarrow> jsstring \<Rightarrow> jsstring option) \<Rightarrow> app_event \<Rightarrow> app \<Rightarrow> app" where
  "app_step U (Click href) a = click U href a"
| "app_step U Back a = go_back a"
| "app_step U Forward a = go_forward a"
| "app_step U TransitionEnd a = transitionEnd a"

definition app_run :: "(jsstring \<Rightarrow> jsstring \<Rightarrow> jsstring option) \<Rightarrow> app_event list \<Rightarrow> app \<Rightarrow> app" where
  "app_run U evs a = fold (app_step U) evs a"

text \<open>
  The route table of the application (lines 302 to 306); the three markup files are
  imported from outside \<^verbatim>\<open>main.ts\<close> and are parameters here.
\<close>

definition app_routes :: "jsstring \<Rightarrow> jsstring \<Rightarrow> jsstring \<Rightarrow> Route list" where
  "app_routes homeContent aboutContent workContent =
     [\<lparr>path = ascii ''/'', label = ascii ''HOME'', html = homeContent\<rparr>,
      \<lparr>path = ascii ''/about'', label = ascii ''ABOUT'', html = aboutContent\<rparr>,
      \<lparr>path = ascii ''/work'', label = ascii ''WORK'', html = workContent\<rparr>]"

text \<open>
  The constructor (lines 314 to 321): an empty container, no current page, and the first
  call of \<^verbatim>\<open>navigate\<close> with the path the document was loaded at.
\<close>

definition boot :: "Route list \<Rightarrow> jsstring \<Rightarrow> app" where
  "boot rs p =
     navigate p
       \<lparr>routes = rs,
        contentEl = \<lparr>innerHTML = [], c_opacity = [], c_transition = []\<rparr>,
        currentPage = None, listeners = [],
        location = \<lparr>entries_back = [], pathname = p, entries_forward = []\<rparr>,
        navigated = []\<rparr>"

section \<open>Predicates used in the statements\<close>

text \<open>A text is a decoy glyph when it is one code unit of \<open>SCRAMBLE_CHARS\<close>.\<close>

definition is_decoy_glyph :: "jsstring \<Rightarrow> bool" where
  "is_decoy_glyph t \<longleftrightarrow> t \<in> set (map (\<lambda>c. [c]) SCRAMBLE_CHARS)"

text \<open>Every fake span of the element shows a decoy glyph.\<close>

definition decoys_ok :: "element \<Rightarrow> bool" where
  "decoys_ok el \<longleftrightarrow>
     list_all (\<lambda>c. list_all (\<lambda>sp. cls sp = ''scramble-fake'' \<longrightarrow> is_decoy_glyph (textContent sp)) (children c)) el"

text \<open>The spans of one class in a cell, in document order.\<close>

definition spans_of :: "string \<Rightarrow> cell \<Rightarrow> span list" where
  "spans_of c cl = filter (\<lambda>sp. cls sp = c) (children cl)"

definition is_hide :: "real \<times> task \<Rightarrow> bool" where
  "is_hide t = (case snd t of SweepHide r c \<Rightarrow> True | _ \<Rightarrow> False)"


definition is_restore :: "real \<times> task \<Rightarrow> bool" where
  "is_restore t = (case snd t of SweepRestore r c \<Rightarrow> True | _ \<Rightarrow> False)"

text \<open>A reference that points at a span of the element.\<close>

definition in_element :: "ref \<Rightarrow> element \<Rightarrow> bool" where
  "in_element r el \<longleftrightarrow> fst r < length el \<and> snd r < length (children (el ! fst r))"

text \<open>The timers a call registered: those pending after it that were not pending before.\<close>

definition registered :: "session \<Rightarrow> session \<Rightarrow> (real \<times> task) list" where
  "registered before after = drop (length (pending before)) (pending after)"

text \<open>
  The transform the link hover passes to \<^verbatim>\<open>scrambleSweep\<close> (line 387):
  \<^verbatim>\<open>function (e) { e.style.color = "black" }\<close>.
\<close>

definition hover_transform :: "span \<Rightarrow> span" where
  "hover_transform e = e\<lparr>color := ''black''\<rparr>"

text \<open>The class and the text of every span, cell by cell: what the queries and \<^verbatim>\<open>scrambleGetChars\<close> read.\<close>

definition skeleton :: "element \<Rightarrow> (string \<times> jsstring) list list" where
  "skeleton el = map (\<lambda>c. map (\<lambda>sp. (cls sp, textContent sp)) (children c)) el"

text \<open>The tasks \<^verbatim>\<open>scrambleReveal\<close> registers.\<close>

definition reveal_task :: "real \<times> task \<Rightarrow> bool" where
  "reveal_task t =
     (case snd t of FakeShow f \<Rightarrow> True | FakeHide f \<Rightarrow> True | RevealFade r d \<Rightarrow> True | _ \<Rightarrow> False)"

text \<open>
  The invariant of the application over a route table: the container holds nothing or
  the markup of one route, and a continuation waiting behind a hide holds a route of
  the table.
\<close>

definition listener_ok :: "Route list \<Rightarrow> continuation \<Rightarrow> bool" where
  "listener_ok rs k = (case k of AfterHide (Some r) \<Rightarrow> r \<in> set rs | _ \<Rightarrow> True)"

definition app_inv :: "Route list \<Rightarrow> app \<Rightarrow> bool" where
  "app_inv rs a \<longleftrightarrow>
     routes a = rs \<and> innerHTML (contentEl a) \<in> set ([] # map html rs) \<and>
     list_all (listener_ok rs) (listeners a)"

section \<open>Properties of scramblePrepare\<close>

subsection \<open>Decoy glyphs\<close>

lemma length_SCRAMBLE_CHARS: "length SCRAMBLE_CHARS = 22"
  by (simp add: SCRAMBLE_CHARS_def)

lemma random_glyph_in_set:
  assumes "0 \<le> r" "r < 1"
  shows "\<exists>c \<in> set SCRAMBLE_CHARS. random_glyph r = Some [c]"
proof -
  have lo: "0 \<le> \<lfloor>r * 22\<rfloor>" using assms by simp
  have "r * 22 < 22" using assms by simp
  then have hi: "\<lfloor>r * 22\<rfloor> < 22" by linarith
  have "nat \<lfloor>r * 22\<rfloor> < length SCRAMBLE_CHARS"
    using lo hi unfolding length_SCRAMBLE_CHARS by linarith
  then have "SCRAMBLE_CHARS ! nat \<lfloor>r * 22\<rfloor> \<in> set SCRAMBLE_CHARS"
    by (rule nth_mem)
  moreover have "random_glyph r = Some [SCRAMBLE_CHARS ! nat \<lfloor>r * 22\<rfloor>]"
    unfolding random_glyph_def js_index_def length_SCRAMBLE_CHARS
    using lo hi by (simp del: zero_le_floor floor_less_iff)
  ultimately show ?thesis by blast
qed

lemma random_glyph_decoy:
  assumes "0 \<le> r" "r < 1"
  shows "is_decoy_glyph (template_text (random_glyph r))"
    and "is_decoy_glyph (assigned_text (random_glyph r))"
proof -
  obtain c where c: "c \<in> set SCRAMBLE_CHARS" "random_glyph r = Some [c]"
    using random_glyph_in_set[OF assms] by blast
  have "[c] \<in> set (map (\<lambda>c. [c]) SCRAMBLE_CHARS)"
    using c(1) by (simp only: set_map image_eqI)
  then show "is_decoy_glyph (template_text (random_glyph r))"
    and "is_decoy_glyph (assigned_text (random_glyph r))"
    by (simp_all add: c(2) is_decoy_glyph_def template_text_def assigned_text_def)
qed

subsection \<open>The inner loop of scramblePrepare\<close>

lemma insert_fakes_shape:
  "\<exists>gs. fst (insert_fakes R k i (cs, n)) = map fake_span gs @ cs
        \<and> (unit_interval R \<longrightarrow> list_all is_decoy_glyph gs)"
proof (induction R k i "(cs, n)" arbitrary: cs n rule: insert_fakes.induct)
  case (1 R k i cs n)
  show ?case
  proof (cases "real i < k")
    case True
    let ?g = "template_text (random_glyph (R n))"
    from "1"[OF True] obtain gs where
      gs: "fst (insert_fakes R k (Suc i) (fake_span ?g # cs, Suc n)) = map fake_span gs @ fake_span ?g # cs"
          "unit_interval R \<longrightarrow> list_all is_decoy_glyph gs"
      by blast
    have "fst (insert_fakes R k i (cs, n)) = map fake_span (gs @ [?g]) @ cs"
      using True gs(1) by (subst insert_fakes.simps) simp
    moreover have "unit_interval R \<longrightarrow> list_all is_decoy_glyph (gs @ [?g])"
      using gs(2) random_glyph_decoy(1)[of "R n"] by (simp add: unit_interval_def)
    ultimately show ?thesis by blast
  next
    case False
    then have "fst (insert_fakes R k i (cs, n)) = map fake_span [] @ cs"
      by (subst insert_fakes.simps) simp
    then show ?thesis by (intro exI[of _ "[]"]) simp
  qed
qed

lemma insert_fakes_count:
  "i \<le> k \<Longrightarrow> length (fst (insert_fakes R (real k) i (cs, n))) = (k - i) + length cs"
proof (induction R "real k" i "(cs, n)" arbitrary: cs n rule: insert_fakes.induct)
  case (1 R i cs n)
  show ?case
  proof (cases "i < k")
    case True
    then have "real i < real k" by simp
    from "1.hyps"[OF this] True show ?thesis
      by (subst insert_fakes.simps) simp
  next
    case False
    with "1.prems" have "i = k" by simp
    then show ?thesis by (subst insert_fakes.simps) simp
  qed
qed

lemma cls_fake_span [simp]: "cls (fake_span g) = ''scramble-fake''"
  by (simp add: fake_span_def)

lemma cls_real_span [simp]: "cls (real_span g) = ''scramble-real''"
  by (simp add: real_span_def)

lemma textContent_fake_span [simp]: "textContent (fake_span g) = g"
  by (simp add: fake_span_def)

lemma textContent_real_span [simp]: "textContent (real_span g) = g"
  by (simp add: real_span_def)

lemma filter_fake_spans:
  "filter (\<lambda>sp. cls sp = ''scramble-real'') (map fake_span gs) = []"
  "filter (\<lambda>sp. cls sp = ''scramble-fake'') (map fake_span gs) = map fake_span gs"
  by (induction gs) simp_all

text \<open>A prepared cell: some fakes, then the real span with the original content.\<close>

lemma prepare_char_shape:
  "\<exists>gs. children (fst (prepare_char R k original n)) = map fake_span gs @ [real_span original]
        \<and> (unit_interval R \<longrightarrow> list_all is_decoy_glyph gs)"
proof -
  obtain gs where
    "fst (insert_fakes R k 0 ([real_span original], n)) = map fake_span gs @ [real_span original]"
    "unit_interval R \<longrightarrow> list_all is_decoy_glyph gs"
    using insert_fakes_shape by blast
  then show ?thesis
    by (auto simp: prepare_char_def case_prod_unfold Let_def)
qed

lemma prepare_char_length:
  "length (children (fst (prepare_char R (real k) original n))) = Suc k"
  using insert_fakes_count[of 0 k R "[real_span original]" n]
  by (simp add: prepare_char_def case_prod_unfold Let_def)

lemma length_prepare_chars:
  "length (fst (prepare_chars R k chars n)) = length chars"
  by (induction chars arbitrary: n) (simp_all add: case_prod_unfold Let_def)

lemma nth_prepare_chars:
  "i < length chars \<Longrightarrow>
     \<exists>m. fst (prepare_chars R k chars n) ! i = fst (prepare_char R k (chars ! i) m)"
proof (induction chars arbitrary: n i)
  case Nil
  then show ?case by simp
next
  case (Cons c chars)
  show ?case
  proof (cases i)
    case 0
    then show ?thesis by (auto simp: case_prod_unfold Let_def)
  next
    case (Suc j)
    with Cons.prems have "j < length chars" by simp
    from Cons.IH[OF this] show ?thesis
      using Suc by (simp add: case_prod_unfold Let_def)
  qed
qed

lemma prepared_cell:
  assumes "i < length chars"
  shows "\<exists>gs. children (fst (prepare_chars R k chars n) ! i) = map fake_span gs @ [real_span (chars ! i)]
        \<and> (unit_interval R \<longrightarrow> list_all is_decoy_glyph gs)"
  using nth_prepare_chars[OF assms, of R k n] prepare_char_shape by metis

lemma prepared_cell_length:
  assumes "i < length chars"
  shows "length (children (fst (prepare_chars R (real k) chars n) ! i)) = Suc k"
  using nth_prepare_chars[OF assms, of R "real k" n] prepare_char_length by metis

text \<open>
  Claim C4. After \<^verbatim>\<open>scramblePrepare(el, k)\<close> the element has one cell per character
  the splitter produced, and every cell holds exactly one span of class
  \<^verbatim>\<open>scramble-real\<close>, whose content is the cell's original content, and exactly \<open>k\<close>
  spans of class \<^verbatim>\<open>scramble-fake\<close>, and nothing else.
\<close>

theorem scramblePrepare_cells:
  "length (fst (scramblePrepare R str (Some (real k)) n)) = length (splitText str) \<and>
   (\<forall>i < length (splitText str).
      spans_of ''scramble-real'' (fst (scramblePrepare R str (Some (real k)) n) ! i)
        = [real_span (splitText str ! i)] \<and>
      textContent (hd (spans_of ''scramble-real'' (fst (scramblePrepare R str (Some (real k)) n) ! i)))
        = splitText str ! i \<and>
      length (spans_of ''scramble-fake'' (fst (scramblePrepare R str (Some (real k)) n) ! i)) = k \<and>
      length (children (fst (scramblePrepare R str (Some (real k)) n) ! i)) = k + 1)"
proof (intro conjI allI impI)
  show "length (fst (scramblePrepare R str (Some (real k)) n)) = length (splitText str)"
    by (simp add: scramblePrepare_def length_prepare_chars)
next
  fix i assume i: "i < length (splitText str)"
  let ?c = "fst (scramblePrepare R str (Some (real k)) n) ! i"
  obtain gs where gs: "children ?c = map fake_span gs @ [real_span (splitText str ! i)]"
    using prepared_cell[OF i, of R "real k" n] by (auto simp: scramblePrepare_def)
  have len: "length (children ?c) = Suc k"
    using prepared_cell_length[OF i, of R k n] by (simp add: scramblePrepare_def)
  show r: "spans_of ''scramble-real'' ?c = [real_span (splitText str ! i)]"
    by (simp add: spans_of_def gs filter_fake_spans)
  show "textContent (hd (spans_of ''scramble-real'' ?c)) = splitText str ! i"
    by (simp add: r)
  show "length (spans_of ''scramble-fake'' ?c) = k"
    using len by (simp add: spans_of_def gs filter_fake_spans)
  show "length (children ?c) = k + 1"
    using len by simp
qed

theorem scramblePrepare_cells_witness:
  "spans_of ''scramble-real'' (fst (scramblePrepare (\<lambda>n. 1 / 2) (ascii ''a b'') (Some 2) 0) ! 1)
     = [real_span (ascii ''b'')] \<and>
   length (spans_of ''scramble-fake'' (fst (scramblePrepare (\<lambda>n. 1 / 2) (ascii ''a b'') (Some 2) 0) ! 1)) = 2"
proof -
  have sp: "splitText (ascii ''a b'') = [ascii ''a'', ascii ''b'']"
    by code_simp
  from scramblePrepare_cells[of "\<lambda>n. 1 / 2" "ascii ''a b''" 2 0]
  show ?thesis unfolding sp by simp
qed

section \<open>Span updates\<close>

lemma length_upd_span [simp]: "length (upd_span r f el) = length el"
  by (simp add: upd_span_def)

lemma length_children_upd_span [simp]:
  "length (children (upd_span r f el ! i)) = length (children (el ! i))"
  by (cases "i = fst r") (auto simp: upd_span_def nth_list_update)

lemma upd_span_other_cell:
  "i \<noteq> fst r \<Longrightarrow> upd_span r f el ! i = el ! i"
  by (simp add: upd_span_def)

lemma all_spans_upd_span:
  assumes "list_all (\<lambda>c. list_all Q (children c)) el"
    and "\<And>sp. Q sp \<Longrightarrow> Q (f sp)"
  shows "list_all (\<lambda>c. list_all Q (children c)) (upd_span r f el)"
proof (cases "fst r < length el \<and> snd r < length (children (el ! fst r))")
  case False
  then have "upd_span r f el = el" by (auto simp: upd_span_def)
  then show ?thesis using assms(1) by simp
next
  case True
  let ?c = "el ! fst r"
  have c: "list_all Q (children ?c)"
    using assms(1) True by (simp add: list_all_length)
  then have "Q (get_span r el)"
    using True by (simp add: list_all_length get_span_def)
  then have q: "Q (f (get_span r el))" by (rule assms(2))
  have "list_all Q ((children ?c)[snd r := f (get_span r el)])"
    unfolding list_all_length
  proof (intro allI impI)
    fix n assume "n < length ((children ?c)[snd r := f (get_span r el)])"
    then have n: "n < length (children ?c)" by simp
    show "Q ((children ?c)[snd r := f (get_span r el)] ! n)"
    proof (cases "n = snd r")
      case True
      then show ?thesis using n q by simp
    next
      case False
      then show ?thesis using n c by (simp add: list_all_length)
    qed
  qed
  then have "list_all Q (children ((el ! fst r)\<lparr>children := (children ?c)[snd r := f (get_span r el)]\<rparr>))"
    by simp
  with assms(1) have "list_all (\<lambda>c. list_all Q (children c))
      (el[fst r := (el ! fst r)\<lparr>children := (children ?c)[snd r := f (get_span r el)]\<rparr>])"
    unfolding list_all_iff using set_update_subset_insert[of el "fst r"] by blast
  then show ?thesis
    using True by (simp add: upd_span_def)
qed

section \<open>Decoy glyphs in the document\<close>

lemma decoys_ok_upd_span:
  assumes "decoys_ok el"
    and "\<And>sp. cls (f sp) = ''scramble-fake'' \<Longrightarrow> cls sp = ''scramble-fake''"
    and "\<And>sp. is_decoy_glyph (textContent sp) \<Longrightarrow> is_decoy_glyph (textContent (f sp))"
  shows "decoys_ok (upd_span r f el)"
  using assms(1) unfolding decoys_ok_def
  by (rule all_spans_upd_span) (use assms(2,3) in blast)

lemma decoys_ok_assign:
  assumes "decoys_ok el" and "is_decoy_glyph g"
  shows "decoys_ok (upd_span r (\<lambda>sp. sp\<lparr>textContent := g\<rparr>) el)"
  using assms(1) unfolding decoys_ok_def
  by (rule all_spans_upd_span) (simp add: assms(2))

lemma decoys_ok_prepare_chars:
  assumes "unit_interval R"
  shows "decoys_ok (fst (prepare_chars R k chars n))"
  unfolding decoys_ok_def list_all_length
proof (intro allI impI)
  fix i j
  let ?el = "fst (prepare_chars R k chars n)"
  assume i: "i < length ?el" and j: "j < length (children (?el ! i))"
    and f: "cls (children (?el ! i) ! j) = ''scramble-fake''"
  from i have i': "i < length chars" by (simp add: length_prepare_chars)
  obtain gs where gs: "children (?el ! i) = map fake_span gs @ [real_span (chars ! i)]"
    "list_all is_decoy_glyph gs"
    using prepared_cell[OF i', of R k n] assms by blast
  show "is_decoy_glyph (textContent (children (?el ! i) ! j))"
  proof (cases "j < length gs")
    case True
    then show ?thesis using gs by (simp add: nth_append list_all_length)
  next
    case False
    with j gs(1) have "j = length gs" by simp
    with f gs(1) show ?thesis by (simp add: nth_append)
  qed
qed

lemma cells_sweep_fakes_decoys:
  assumes "unit_interval R"
    and "\<And>sp. cls (tr sp) = cls sp \<and> textContent (tr sp) = textContent sp"
    and "decoys_ok (cells s)"
  shows "decoys_ok (cells (sweep_fakes R tr c fakes s))"
  using assms(3)
proof (induction fakes arbitrary: s)
  case Nil
  then show ?case by simp
next
  case (Cons fake rest)
  let ?g = "assigned_text (random_glyph (R (draws s)))"
  have g: "is_decoy_glyph ?g"
    using assms(1) random_glyph_decoy(2)[of "R (draws s)"] by (simp add: unit_interval_def)
  have 1: "decoys_ok (upd_span fake (\<lambda>sp. sp\<lparr>textContent := ?g\<rparr>) (cells s))"
    using Cons.prems g by (rule decoys_ok_assign)
  have 2: "decoys_ok (upd_span fake tr (upd_span fake (\<lambda>sp. sp\<lparr>textContent := ?g\<rparr>) (cells s)))"
    using 1 by (rule decoys_ok_upd_span) (simp_all add: assms(2))
  show ?case
    using 1 2 by (auto simp: Let_def intro!: Cons.IH)
qed

lemma cells_sweep_loop_decoys:
  assumes "unit_interval R"
    and "\<And>sp. cls (tr sp) = cls sp \<and> textContent (tr sp) = textContent sp"
    and "decoys_ok (cells s)"
  shows "decoys_ok (cells (sweep_loop R tr c cS fD fS sD newChars reals i si s))"
  using assms(3)
proof (induction reals arbitrary: i si s)
  case Nil
  then show ?case by simp
next
  case (Cons rl rest)
  have "decoys_ok (cells (sweep_fakes R tr c (cell_querySelectorAll ''scramble-fake'' (cells s) (parentElement rl)) s))"
    using assms(1,2) Cons.prems by (rule cells_sweep_fakes_decoys)
  then show ?case
    by (auto simp: Let_def intro!: Cons.IH)
qed

text \<open>
  Claim C9. Every decoy the engine generates is one code unit of the glyph string:
  the glyph drawn for any value of \<^verbatim>\<open>Math.random()\<close> in \<open>[0, 1)\<close>, every fake span
  that \<^verbatim>\<open>scramblePrepare\<close> inserts, and every fake span after the re-randomisation
  of \<^verbatim>\<open>scrambleSweep\<close> (for a transform that leaves class and text alone, as the
  default and the colouring transform of the link hover do).
\<close>

theorem decoys_from_glyph_set:
  assumes "unit_interval R"
    and "\<forall>sp. cls (tr sp) = cls sp \<and> textContent (tr sp) = textContent sp"
  shows "(\<exists>c \<in> set SCRAMBLE_CHARS. random_glyph (R n) = Some [c]) \<and>
         decoys_ok (fst (scramblePrepare R str fakeCnt n)) \<and>
         (decoys_ok (cells s) \<longrightarrow> decoys_ok (cells (scrambleSweep R tr opts newChars s)))"
proof (intro conjI impI)
  show "\<exists>c \<in> set SCRAMBLE_CHARS. random_glyph (R n) = Some [c]"
    using assms(1) random_glyph_in_set[of "R n"] by (simp add: unit_interval_def)
  show "decoys_ok (fst (scramblePrepare R str fakeCnt n))"
    using assms(1) by (simp add: scramblePrepare_def decoys_ok_prepare_chars)
next
  assume "decoys_ok (cells s)"
  then have "decoys_ok (cells (s\<lparr>calls := Suc (calls s), transform_of := (transform_of s)(calls s := tr),
      transformCancelled := (transformCancelled s)(calls s := False)\<rparr>))"
    by simp
  with assms show "decoys_ok (cells (scrambleSweep R tr opts newChars s))"
    unfolding scrambleSweep_def Let_def by (intro cells_sweep_loop_decoys) simp_all
qed

theorem decoys_from_glyph_set_witness:
  "random_glyph (7 / 10) = Some [57] \<and>
   decoys_ok (fst (scramblePrepare (\<lambda>n. 7 / 10) (ascii ''ab'') None 0)) \<and>
   decoys_ok (cells (scrambleSweep (\<lambda>n. 7 / 10) no_transform no_options None
                (new_session (scramblePrepare (\<lambda>n. 7 / 10) (ascii ''ab'') None 0))))"
proof -
  have u: "unit_interval (\<lambda>n. 7 / 10)" by (simp add: unit_interval_def)
  have t: "\<forall>sp. cls (no_transform sp) = cls sp \<and> textContent (no_transform sp) = textContent sp"
    by (simp add: no_transform_def)
  have g: "random_glyph (7 / 10) = Some [57]"
    by (simp add: random_glyph_def js_index_def SCRAMBLE_CHARS_def)
  from decoys_from_glyph_set[OF u t, where n = "0" and str = "ascii ''ab''" and fakeCnt = None
      and s = "new_session (scramblePrepare (\<lambda>n. 7 / 10) (ascii ''ab'') None 0)"
      and opts = no_options and newChars = None]
  show ?thesis by (simp add: g new_session_def)
qed

section \<open>Properties of the router\<close>

lemma resolve_Some_in_table:
  "resolve rs p = Some r \<Longrightarrow> r \<in> set rs \<and> path r = p"
  by (auto simp: resolve_def find_Some_iff)

lemma resolve_None_iff:
  "resolve rs p = None \<longleftrightarrow> (\<forall>r \<in> set rs. path r \<noteq> p)"
  by (auto simp: resolve_def find_None_iff)

lemma resolve_finds_unique:
  assumes "distinct (map path rs)" and "r \<in> set rs" and "path r = p"
  shows "resolve rs p = Some r"
proof -
  from assms(2,3) have "resolve rs p \<noteq> None"
    by (auto simp: resolve_None_iff)
  then obtain r' where r': "resolve rs p = Some r'" by blast
  then have "r' \<in> set rs" "path r' = p"
    using resolve_Some_in_table by blast+
  moreover from assms(1) have "inj_on path (set rs)"
    by (simp add: distinct_map)
  ultimately have "r' = r"
    using assms(2,3) by (auto dest: inj_onD)
  with r' show ?thesis by simp
qed

lemma distinct_app_routes: "distinct (map path (app_routes h a w))"
  by (simp add: app_routes_def ascii_def)

lemma resolve_first_route:
  "resolve (r0 # rest) (path r0) = Some r0"
  by (simp add: resolve_def)

lemma navigate_route_for:
  "navigate p st =
     (case currentPage st of
        Some current \<Rightarrow> hide_page (AfterHide (route_for (routes st) p)) st
      | None \<Rightarrow> after_hide (route_for (routes st) p) st)"
  by (simp add: navigate_def Let_def)

lemma route_for_unresolved:
  "resolve rs p = None \<Longrightarrow> rs = r0 # rest \<Longrightarrow> route_for rs p = Some r0"
  by (simp add: route_for_def first_route_def)

lemma route_for_resolved:
  "resolve rs p = Some r \<Longrightarrow> route_for rs p = Some r"
  by (simp add: route_for_def)

lemma navigate_no_page:
  assumes "currentPage st = None" and "route_for (routes st) p = Some r"
  shows "innerHTML (contentEl (navigate p st)) = html r"
  using assms by (simp add: navigate_route_for after_hide_def create_def show_page_def)

lemma navigate_with_page:
  assumes "currentPage st = Some cur" and "route_for (routes st) p = Some r"
  shows "navigate p st = hide_page (AfterHide (Some r)) st"
  using assms by (simp add: navigate_route_for)

lemma navigate_unresolved:
  assumes "resolve (routes st) p = None" and "routes st = r0 # rest"
  shows "navigate p st = navigate (path r0) st"
proof -
  have "route_for (routes st) p = Some r0"
    using assms by (simp add: route_for_def first_route_def)
  moreover have "route_for (routes st) (path r0) = Some r0"
    using assms(2) by (simp add: route_for_def resolve_first_route)
  ultimately show ?thesis
    by (cases "currentPage st") (simp_all add: navigate_route_for)
qed

text \<open>
  Claim C6. In a route table with pairwise different paths, \<^verbatim>\<open>resolve(path)\<close>
  returns a route exactly when it is the route of the table with that path, and
  \<^verbatim>\<open>undefined\<close> exactly when no route has it. The table of the application has
  pairwise different paths and its first route is the home route. \<^verbatim>\<open>navigate\<close> at
  a path that does not resolve does what it does at the path of the first route: without
  a current page it injects the first route's markup at once, with one it waits behind
  the hide with the first route; at a path that resolves it does so with the route
  resolved. Booting the application at an unknown path shows the home markup.
\<close>

theorem resolve_exact_or_first:
  assumes "distinct (map path rs)"
  shows "(resolve rs p = Some r \<longleftrightarrow> r \<in> set rs \<and> path r = p) \<and>
         (resolve rs p = None \<longleftrightarrow> (\<forall>r \<in> set rs. path r \<noteq> p)) \<and>
         (resolve rs p = None \<longrightarrow> route_for rs p = first_route rs) \<and>
         (resolve rs p = Some r \<longrightarrow> route_for rs p = Some r) \<and>
         distinct (map path (app_routes h a w)) \<and>
         first_route (app_routes h a w) = Some \<lparr>path = ascii ''/'', label = ascii ''HOME'', html = h\<rparr> \<and>
         (resolve (routes st) p = None \<and> routes st = r0 # rest \<longrightarrow>
            navigate p st = navigate (path r0) st) \<and>
         (resolve (routes st) p = None \<and> routes st = r0 # rest \<and> currentPage st = None \<longrightarrow>
            innerHTML (contentEl (navigate p st)) = html r0) \<and>
         (resolve (routes st) p = None \<and> routes st = r0 # rest \<and> currentPage st = Some cur \<longrightarrow>
            navigate p st = hide_page (AfterHide (Some r0)) st) \<and>
         (resolve (routes st) p = Some r \<and> currentPage st = None \<longrightarrow>
            innerHTML (contentEl (navigate p st)) = html r) \<and>
         (resolve (routes st) p = Some r \<and> currentPage st = Some cur \<longrightarrow>
            navigate p st = hide_page (AfterHide (Some r)) st) \<and>
         (resolve (app_routes h a w) p = None \<longrightarrow>
            innerHTML (contentEl (boot (app_routes h a w) p)) = h)"
proof (intro conjI)
  show "resolve rs p = Some r \<longleftrightarrow> r \<in> set rs \<and> path r = p"
    using resolve_Some_in_table resolve_finds_unique[OF assms] by blast
  show "resolve rs p = None \<longleftrightarrow> (\<forall>r \<in> set rs. path r \<noteq> p)"
    by (rule resolve_None_iff)
  show "resolve rs p = None \<longrightarrow> route_for rs p = first_route rs"
    by (simp add: route_for_def)
  show "resolve rs p = Some r \<longrightarrow> route_for rs p = Some r"
    by (simp add: route_for_def)
  show "distinct (map path (app_routes h a w))"
    by (rule distinct_app_routes)
  show "first_route (app_routes h a w) = Some \<lparr>path = ascii ''/'', label = ascii ''HOME'', html = h\<rparr>"
    by (simp add: first_route_def app_routes_def)
  show "resolve (routes st) p = None \<and> routes st = r0 # rest \<longrightarrow>
      navigate p st = navigate (path r0) st"
    using navigate_unresolved by blast
  show "resolve (routes st) p = None \<and> routes st = r0 # rest \<and> currentPage st = None \<longrightarrow>
      innerHTML (contentEl (navigate p st)) = html r0"
    using navigate_no_page route_for_unresolved by blast
  show "resolve (routes st) p = None \<and> routes st = r0 # rest \<and> currentPage st = Some cur \<longrightarrow>
      navigate p st = hide_page (AfterHide (Some r0)) st"
    using navigate_with_page route_for_unresolved by blast
  show "resolve (routes st) p = Some r \<and> currentPage st = None \<longrightarrow>
      innerHTML (contentEl (navigate p st)) = html r"
    using navigate_no_page route_for_resolved by blast
  show "resolve (routes st) p = Some r \<and> currentPage st = Some cur \<longrightarrow>
      navigate p st = hide_page (AfterHide (Some r)) st"
    using navigate_with_page route_for_resolved by blast
  show "resolve (app_routes h a w) p = None \<longrightarrow>
      innerHTML (contentEl (boot (app_routes h a w) p)) = h"
  proof
    assume "resolve (app_routes h a w) p = None"
    then have r: "route_for (app_routes h a w) p
        = Some \<lparr>path = ascii ''/'', label = ascii ''HOME'', html = h\<rparr>"
      by (simp add: route_for_def first_route_def app_routes_def)
    let ?st = "\<lparr>routes = app_routes h a w,
        contentEl = \<lparr>innerHTML = [], c_opacity = [], c_transition = []\<rparr>,
        currentPage = None, listeners = [],
        location = \<lparr>entries_back = [], pathname = p, entries_forward = []\<rparr>,
        navigated = []\<rparr>"
    have "innerHTML (contentEl (navigate p ?st))
        = html \<lparr>path = ascii ''/'', label = ascii ''HOME'', html = h\<rparr>"
      by (rule navigate_no_page) (simp_all add: r)
    also have "\<dots> = h" by simp
    finally show "innerHTML (contentEl (boot (app_routes h a w) p)) = h"
      by (simp add: boot_def)
  qed
qed

theorem resolve_exact_or_first_witness:
  "resolve (app_routes (ascii ''H'') (ascii ''A'') (ascii ''W'')) (ascii ''/about'')
     = Some \<lparr>path = ascii ''/about'', label = ascii ''ABOUT'', html = ascii ''A''\<rparr> \<and>
   resolve (app_routes (ascii ''H'') (ascii ''A'') (ascii ''W'')) (ascii ''/about/'') = None \<and>
   route_for (app_routes (ascii ''H'') (ascii ''A'') (ascii ''W'')) (ascii ''/about/'')
     = Some \<lparr>path = ascii ''/'', label = ascii ''HOME'', html = ascii ''H''\<rparr> \<and>
   innerHTML (contentEl (boot (app_routes (ascii ''H'') (ascii ''A'') (ascii ''W'')) (ascii ''/about/'')))
     = ascii ''H'' \<and>
   navigate (ascii ''/about/'') (boot (app_routes (ascii ''H'') (ascii ''A'') (ascii ''W'')) (ascii ''/about''))
     = navigate (ascii ''/'') (boot (app_routes (ascii ''H'') (ascii ''A'') (ascii ''W'')) (ascii ''/about''))"
proof -
  let ?rs = "app_routes (ascii ''H'') (ascii ''A'') (ascii ''W'')"
  let ?about = "\<lparr>path = ascii ''/about'', label = ascii ''ABOUT'', html = ascii ''A''\<rparr>"
  let ?home = "\<lparr>path = ascii ''/'', label = ascii ''HOME'', html = ascii ''H''\<rparr>"
  let ?st = "boot ?rs (ascii ''/about'')"
  have d: "distinct (map path ?rs)"
    by (simp add: app_routes_def ascii_def)
  have in_table: "?about \<in> set ?rs \<and> path ?about = ascii ''/about''"
    by (simp add: app_routes_def)
  have none: "\<forall>r \<in> set ?rs. path r \<noteq> ascii ''/about/''"
    by (simp add: app_routes_def ascii_def)
  have rts: "routes ?st = ?home # [?about, \<lparr>path = ascii ''/work'', label = ascii ''WORK'', html = ascii ''W''\<rparr>]"
    by code_simp
  note T = resolve_exact_or_first[OF d, where p = "ascii ''/about''" and r = ?about]
  note N = resolve_exact_or_first[OF d, where p = "ascii ''/about/''" and h = "ascii ''H''"
      and a = "ascii ''A''" and w = "ascii ''W''" and st = ?st and ?r0.0 = ?home
      and rest = "[?about, \<lparr>path = ascii ''/work'', label = ascii ''WORK'', html = ascii ''W''\<rparr>]"]
  have 1: "resolve ?rs (ascii ''/about'') = Some ?about"
    using T[THEN conjunct1] in_table by blast
  have 2: "resolve ?rs (ascii ''/about/'') = None"
    using N[THEN conjunct2, THEN conjunct1] none by blast
  have 3: "route_for ?rs (ascii ''/about/'') = Some ?home"
    using N[THEN conjunct2, THEN conjunct2, THEN conjunct1]
      N[THEN conjunct2, THEN conjunct2, THEN conjunct2, THEN conjunct2, THEN conjunct2, THEN conjunct1] 2
    by simp
  have 4: "innerHTML (contentEl (boot ?rs (ascii ''/about/''))) = ascii ''H''"
    using N 2 by blast
  have r2: "resolve (routes ?st) (ascii ''/about/'') = None"
    using 2 by (simp add: boot_def navigate_def hide_page_def after_hide_def create_def show_page_def
        Let_def split: option.splits)
  have "navigate (ascii ''/about/'') ?st = navigate (path ?home) ?st"
    using N r2 rts by blast
  then have 5: "navigate (ascii ''/about/'') ?st = navigate (ascii ''/'') ?st"
    by simp
  from 1 2 3 4 5 show ?thesis by (intro conjI)
qed

text \<open>
  Claim C7. \<^verbatim>\<open>push\<close> with the current path returns at once: the history, the log of
  callback invocations and everything else in the application are as before.
\<close>

theorem push_current_path_unchanged:
  "push U (pathname (location a)) a = Inr a"
  by (simp add: push_def)

section \<open>References stay valid\<close>

lemma in_element_upd_span [simp]: "in_element r (upd_span r' f el) = in_element r el"
  by (simp add: in_element_def)

lemma get_span_upd_span_same:
  "in_element r el \<Longrightarrow> get_span r (upd_span r f el) = f (get_span r el)"
  by (simp add: in_element_def upd_span_def get_span_def)

lemma get_span_upd_span_other:
  "r' \<noteq> r \<Longrightarrow> get_span r' (upd_span r f el) = get_span r' el"
  by (cases "fst r' = fst r") (auto simp: upd_span_def get_span_def prod_eq_iff)

lemma cell_querySelectorAll_in_element:
  "i < length el \<Longrightarrow> r \<in> set (cell_querySelectorAll c el i) \<Longrightarrow> in_element r el \<and> fst r = i"
  by (auto simp: cell_querySelectorAll_def in_element_def)

lemma querySelectorAll_in_element:
  "r \<in> set (querySelectorAll c el) \<Longrightarrow> in_element r el"
  by (auto simp: querySelectorAll_def dest: cell_querySelectorAll_in_element)

lemma in_element_exec [simp]: "in_element r (cells (exec t s)) = in_element r (cells s)"
  by (cases t) (simp_all add: Let_def split: option.splits)

lemma in_element_fire [simp]: "in_element r (cells (fire k s)) = in_element r (cells s)"
  by (simp add: fire_def)

section \<open>The closures of the sweeps\<close>

lemma closures_exec [simp]:
  "transformCancelled (exec t s) = transformCancelled s"
  "transform_of (exec t s) = transform_of s"
  "calls (exec t s) = calls s"
  by (cases t; simp)+

lemma closures_fire [simp]:
  "transformCancelled (fire k s) = transformCancelled s"
  "transform_of (fire k s) = transform_of s"
  "calls (fire k s) = calls s"
  by (simp_all add: fire_def)

section \<open>The timers scrambleSweep registers\<close>

lemma pending_sweep_fakes [simp]: "pending (sweep_fakes R tr c fakes s) = pending s"
  by (induction fakes arbitrary: s) (simp_all add: Let_def)

lemma closures_sweep_fakes [simp]:
  "transformCancelled (sweep_fakes R tr c fakes s) = transformCancelled s"
  "transform_of (sweep_fakes R tr c fakes s) = transform_of s"
  "calls (sweep_fakes R tr c fakes s) = calls s"
  by (induction fakes arbitrary: s; simp add: Let_def)+

lemma in_element_sweep_fakes [simp]:
  "in_element r (cells (sweep_fakes R tr c fakes s)) = in_element r (cells s)"
  by (induction fakes arbitrary: s) (simp_all add: Let_def)

lemma sweep_fake_timers_no_hide [simp]:
  "filter is_hide (sweep_fake_timers fS fD b fakes fi) = []"
  by (induction fakes arbitrary: fi) (simp_all add: Let_def is_hide_def)

lemma sweep_fake_timers_no_restore [simp]:
  "filter is_restore (sweep_fake_timers fS fD b fakes fi) = []"
  by (induction fakes arbitrary: fi) (simp_all add: Let_def is_restore_def)

lemma sweep_loop_pending:
  "\<exists>ts. pending (sweep_loop R tr c cS fD fS sD newChars reals i si s) = pending s @ ts
      \<and> filter is_hide ts
          = map (\<lambda>k. ((sD + real (si + k) * cS) * 1000, SweepHide (reals ! k) (new_char newChars (i + k))))
              [0..<length reals]
      \<and> map snd (filter is_restore ts) = map (\<lambda>r. SweepRestore r c) reals"
proof (induction reals arbitrary: i si s)
  case Nil
  then show ?case by simp
next
  case (Cons rl rest)
  let ?fakes = "cell_querySelectorAll ''scramble-fake'' (cells s) (parentElement rl)"
  let ?b = "sD + real si * cS"
  let ?s1 = "sweep_fakes R tr c ?fakes s"
  let ?new = "[(?b * 1000, SweepHide rl (new_char newChars i))]
      @ sweep_fake_timers fS fD ?b ?fakes 0
      @ [((?b + real (length ?fakes) * fS + fD) * 1000, SweepRestore rl c)]"
  let ?s2 = "?s1\<lparr>pending := pending ?s1 @ ?new\<rparr>"
  obtain ts where ts:
    "pending (sweep_loop R tr c cS fD fS sD newChars rest (Suc i) (Suc si) ?s2) = pending ?s2 @ ts"
    "filter is_hide ts
       = map (\<lambda>k. ((sD + real (Suc si + k) * cS) * 1000, SweepHide (rest ! k) (new_char newChars (Suc i + k))))
           [0..<length rest]"
    "map snd (filter is_restore ts) = map (\<lambda>r. SweepRestore r c) rest"
    using Cons.IH[of "Suc i" "Suc si" ?s2] by blast
  have eq: "sweep_loop R tr c cS fD fS sD newChars (rl # rest) i si s
      = sweep_loop R tr c cS fD fS sD newChars rest (Suc i) (Suc si) ?s2"
    by (simp add: Let_def)
  have 1: "pending (sweep_loop R tr c cS fD fS sD newChars (rl # rest) i si s) = pending s @ (?new @ ts)"
    unfolding eq ts(1) by simp
  have 2: "filter is_hide (?new @ ts)
      = map (\<lambda>k. ((sD + real (si + k) * cS) * 1000, SweepHide ((rl # rest) ! k) (new_char newChars (i + k))))
          [0..<length (rl # rest)]"
    by (simp add: ts(2) is_hide_def is_restore_def map_upt_Suc del: upt_Suc)
  have 3: "map snd (filter is_restore (?new @ ts)) = map (\<lambda>r. SweepRestore r c) (rl # rest)"
    by (simp add: ts(3) is_hide_def is_restore_def)
  from 1 2 3 show ?case by blast
qed

lemma scrambleSweep_registered:
  "filter is_hide (registered s (scrambleSweep R tr opts newChars s))
     = map (\<lambda>k. ((default 0 (startDelay opts) + real k * default 0.05 (charStagger opts)) * 1000,
                  SweepHide (querySelectorAll ''scramble-real'' (cells s) ! k) (new_char newChars k)))
         [0..<length (querySelectorAll ''scramble-real'' (cells s))]"
  "map snd (filter is_restore (registered s (scrambleSweep R tr opts newChars s)))
     = map (\<lambda>r. SweepRestore r (calls s)) (querySelectorAll ''scramble-real'' (cells s))"
proof -
  let ?s0 = "s\<lparr>calls := Suc (calls s), transform_of := (transform_of s)(calls s := tr),
      transformCancelled := (transformCancelled s)(calls s := False)\<rparr>"
  let ?reals = "querySelectorAll ''scramble-real'' (cells s)"
  obtain ts where ts:
    "pending (sweep_loop R tr (calls s) (default 0.05 (charStagger opts)) (default 0.12 (fakeDuration opts))
        (default 0.016 (fakeStagger opts)) (default 0 (startDelay opts)) newChars ?reals 0 0 ?s0)
       = pending ?s0 @ ts"
    "filter is_hide ts
       = map (\<lambda>k. ((default 0 (startDelay opts) + real (0 + k) * default 0.05 (charStagger opts)) * 1000,
                    SweepHide (?reals ! k) (new_char newChars (0 + k))))
           [0..<length ?reals]"
    "map snd (filter is_restore ts) = map (\<lambda>r. SweepRestore r (calls s)) ?reals"
    using sweep_loop_pending by blast
  have r: "registered s (scrambleSweep R tr opts newChars s) = ts"
    using ts(1) by (simp add: registered_def scrambleSweep_def Let_def)
  show "filter is_hide (registered s (scrambleSweep R tr opts newChars s))
     = map (\<lambda>k. ((default 0 (startDelay opts) + real k * default 0.05 (charStagger opts)) * 1000,
                  SweepHide (?reals ! k) (new_char newChars k)))
         [0..<length ?reals]"
    unfolding r using ts(2) by simp
  show "map snd (filter is_restore (registered s (scrambleSweep R tr opts newChars s)))
     = map (\<lambda>r. SweepRestore r (calls s)) ?reals"
    unfolding r using ts(3) by simp
qed

lemma fire_task:
  assumes "k < length (pending s)" and "snd (pending s ! k) = t"
  shows "cells (fire k s) = cells (exec t (s\<lparr>pending := take k (pending s) @ drop (Suc k) (pending s)\<rparr>))"
  using assms by (simp add: fire_def)

lemma cells_exec_pending [simp]:
  "cells (exec t (s\<lparr>pending := p\<rparr>)) = cells (exec t s)"
  by (cases t) (simp_all add: Let_def)

section \<open>What the loop of scrambleSweep writes at once\<close>

lemma fst_cell_querySelectorAll:
  "r \<in> set (cell_querySelectorAll c el i) \<Longrightarrow> fst r = i"
  by (auto simp: cell_querySelectorAll_def)

lemma distinct_cell_querySelectorAll: "distinct (cell_querySelectorAll c el i)"
  by (simp add: cell_querySelectorAll_def distinct_map inj_on_def)

lemma cell_querySelectorAll_cong:
  "el ! i = el' ! i \<Longrightarrow> cell_querySelectorAll c el i = cell_querySelectorAll c el' i"
  by (simp add: cell_querySelectorAll_def)

lemma length_cells_sweep_fakes [simp]:
  "length (cells (sweep_fakes R tr cid fakes s)) = length (cells s)"
  by (induction fakes arbitrary: s) (simp_all add: Let_def)

lemma sweep_fakes_other_cell:
  assumes "\<forall>r \<in> set fakes. fst r \<noteq> i"
  shows "cells (sweep_fakes R tr cid fakes s) ! i = cells s ! i"
  using assms
  by (induction fakes arbitrary: s) (simp_all add: Let_def upd_span_other_cell)

lemma sweep_fakes_other_span:
  assumes "r \<notin> set fakes"
  shows "get_span r (cells (sweep_fakes R tr cid fakes s)) = get_span r (cells s)"
  using assms
  by (induction fakes arbitrary: s) (auto simp: Let_def get_span_upd_span_other)

lemma sweep_fakes_span:
  assumes "distinct fakes" and "r \<in> set fakes" and "in_element r (cells s)"
  shows "\<exists>m. get_span r (cells (sweep_fakes R tr cid fakes s))
           = (if transformCancelled s cid then (\<lambda>sp. sp) else tr)
               ((get_span r (cells s))\<lparr>textContent := assigned_text (random_glyph (R m))\<rparr>)"
  using assms
proof (induction fakes arbitrary: s)
  case Nil
  then show ?case by simp
next
  case (Cons f rest)
  let ?g = "assigned_text (random_glyph (R (draws s)))"
  let ?el = "upd_span f (\<lambda>sp. sp\<lparr>textContent := ?g\<rparr>) (cells s)"
  let ?s' = "s\<lparr>cells := (if \<not> transformCancelled s cid then upd_span f tr ?el else ?el),
               draws := Suc (draws s)\<rparr>"
  have step: "sweep_fakes R tr cid (f # rest) s = sweep_fakes R tr cid rest ?s'"
    by (simp add: Let_def)
  show ?case
  proof (cases "r = f")
    case True
    with Cons.prems(1) have "r \<notin> set rest" by simp
    then have "get_span r (cells (sweep_fakes R tr cid rest ?s')) = get_span r (cells ?s')"
      by (rule sweep_fakes_other_span)
    also have "\<dots> = (if transformCancelled s cid then (\<lambda>sp. sp) else tr)
        ((get_span r (cells s))\<lparr>textContent := ?g\<rparr>)"
      using True Cons.prems(3) by (simp add: get_span_upd_span_same)
    finally show ?thesis unfolding step by blast
  next
    case False
    with Cons.prems have r: "r \<in> set rest" "distinct rest" by simp_all
    have same: "get_span r (cells ?s') = get_span r (cells s)"
      using False by (simp add: get_span_upd_span_other)
    have "in_element r (cells ?s')" using Cons.prems(3) by simp
    from Cons.IH[OF r(2) r(1) this] obtain m where
      "get_span r (cells (sweep_fakes R tr cid rest ?s'))
         = (if transformCancelled ?s' cid then (\<lambda>sp. sp) else tr)
             ((get_span r (cells ?s'))\<lparr>textContent := assigned_text (random_glyph (R m))\<rparr>)"
      by blast
    then show ?thesis unfolding step same by auto
  qed
qed

lemma length_cells_sweep_loop [simp]:
  "length (cells (sweep_loop R tr cid cS fD fS sD newChars reals i si s)) = length (cells s)"
  by (induction reals arbitrary: i si s) (simp_all add: Let_def)

lemma in_element_sweep_loop [simp]:
  "in_element r (cells (sweep_loop R tr cid cS fD fS sD newChars reals i si s)) = in_element r (cells s)"
  by (induction reals arbitrary: i si s) (simp_all add: Let_def)

lemma closures_sweep_loop [simp]:
  "transformCancelled (sweep_loop R tr cid cS fD fS sD newChars reals i si s) = transformCancelled s"
  "transform_of (sweep_loop R tr cid cS fD fS sD newChars reals i si s) = transform_of s"
  "calls (sweep_loop R tr cid cS fD fS sD newChars reals i si s) = calls s"
  by (induction reals arbitrary: i si s; simp add: Let_def)+

lemma sweep_loop_other_cell:
  assumes "c \<notin> parentElement ` set reals"
  shows "cells (sweep_loop R tr cid cS fD fS sD newChars reals i si s) ! c = cells s ! c"
  using assms
proof (induction reals arbitrary: i si s)
  case Nil
  then show ?case by simp
next
  case (Cons rl rest)
  from Cons.prems have ne: "parentElement rl \<noteq> c" and rest: "c \<notin> parentElement ` set rest"
    by auto
  have "\<forall>r \<in> set (cell_querySelectorAll ''scramble-fake'' (cells s) (parentElement rl)). fst r \<noteq> c"
    using ne by (auto dest: fst_cell_querySelectorAll)
  then have "cells (sweep_fakes R tr cid (cell_querySelectorAll ''scramble-fake'' (cells s) (parentElement rl)) s) ! c
      = cells s ! c"
    by (rule sweep_fakes_other_cell)
  then show ?case
    using Cons.IH[OF rest] by (simp add: Let_def)
qed

lemma sweep_loop_fake_span:
  assumes "distinct (map parentElement reals)"
    and "rl \<in> set reals"
    and "fake \<in> set (cell_querySelectorAll ''scramble-fake'' (cells s) (parentElement rl))"
    and "in_element fake (cells s)"
    and "\<not> transformCancelled s cid"
  shows "\<exists>m. get_span fake (cells (sweep_loop R tr cid cS fD fS sD newChars reals i si s))
           = tr ((get_span fake (cells s))\<lparr>textContent := assigned_text (random_glyph (R m))\<rparr>)"
  using assms
proof (induction reals arbitrary: i si s)
  case Nil
  then show ?case by simp
next
  case (Cons r0 rest)
  let ?c = "parentElement rl"
  let ?fakes = "cell_querySelectorAll ''scramble-fake'' (cells s) (parentElement r0)"
  let ?b = "sD + real si * cS"
  let ?s1 = "sweep_fakes R tr cid ?fakes s"
  let ?s2 = "?s1\<lparr>pending := pending ?s1
      @ [(?b * 1000, SweepHide r0 (new_char newChars i))]
      @ sweep_fake_timers fS fD ?b ?fakes 0
      @ [((?b + real (length ?fakes) * fS + fD) * 1000, SweepRestore r0 cid)]\<rparr>"
  have step: "sweep_loop R tr cid cS fD fS sD newChars (r0 # rest) i si s
      = sweep_loop R tr cid cS fD fS sD newChars rest (Suc i) (Suc si) ?s2"
    by (simp add: Let_def)
  have fc: "fst fake = ?c"
    using Cons.prems(3) by (rule fst_cell_querySelectorAll)
  show ?case
  proof (cases "parentElement r0 = ?c")
    case True
    with Cons.prems(1) have "?c \<notin> parentElement ` set rest" by auto
    then have "cells (sweep_loop R tr cid cS fD fS sD newChars rest (Suc i) (Suc si) ?s2) ! ?c = cells ?s2 ! ?c"
      by (rule sweep_loop_other_cell)
    then have 1: "get_span fake (cells (sweep_loop R tr cid cS fD fS sD newChars rest (Suc i) (Suc si) ?s2))
        = get_span fake (cells ?s1)"
      by (simp add: get_span_def fc)
    from True Cons.prems(3) have "fake \<in> set ?fakes" by simp
    from sweep_fakes_span[OF distinct_cell_querySelectorAll this Cons.prems(4), of R tr cid]
    obtain m where "get_span fake (cells ?s1)
        = tr ((get_span fake (cells s))\<lparr>textContent := assigned_text (random_glyph (R m))\<rparr>)"
      using Cons.prems(5) by auto
    with 1 show ?thesis unfolding step by auto
  next
    case False
    with Cons.prems(1,2) have rl: "rl \<in> set rest" and d: "distinct (map parentElement rest)"
      by auto
    have "\<forall>r \<in> set ?fakes. fst r \<noteq> ?c"
      using False by (auto dest: fst_cell_querySelectorAll simp: parentElement_def)
    then have cell: "cells ?s1 ! ?c = cells s ! ?c"
      by (rule sweep_fakes_other_cell)
    then have cell2: "cells ?s2 ! ?c = cells s ! ?c" by simp
    have f2: "fake \<in> set (cell_querySelectorAll ''scramble-fake'' (cells ?s2) ?c)"
      using Cons.prems(3) cell_querySelectorAll_cong[OF cell2] by simp
    have e2: "in_element fake (cells ?s2)" using Cons.prems(4) by simp
    have t2: "\<not> transformCancelled ?s2 cid" using Cons.prems(5) by simp
    from Cons.IH[OF d rl f2 e2 t2] obtain m where
      "get_span fake (cells (sweep_loop R tr cid cS fD fS sD newChars rest (Suc i) (Suc si) ?s2))
        = tr ((get_span fake (cells ?s2))\<lparr>textContent := assigned_text (random_glyph (R m))\<rparr>)"
      by blast
    moreover have "get_span fake (cells ?s2) = get_span fake (cells s)"
      using cell2 by (simp add: get_span_def fc)
    ultimately show ?thesis unfolding step by auto
  qed
qed


section \<open>Firing the timers of a sweep\<close>

lemma run_append: "run R (evs @ evs') s = run R evs' (run R evs s)"
  by (simp add: run_def)

lemma run_Cons: "run R (ev # evs) s = run R evs (step R ev s)"
  by (simp add: run_def)

lemma run_Nil [simp]: "run R [] s = s"
  by (simp add: run_def)

lemma in_element_scrambleSweep [simp]:
  "in_element r (cells (scrambleSweep R tr opts newChars s)) = in_element r (cells s)"
  by (simp add: scrambleSweep_def Let_def)

lemma in_element_step [simp]: "in_element r (cells (step R ev s)) = in_element r (cells s)"
  by (cases ev) (simp_all add: cancel_def)

lemma in_element_run [simp]: "in_element r (cells (run R evs s)) = in_element r (cells s)"
  by (induction evs arbitrary: s) (simp_all add: run_Cons)

lemma closures_scrambleSweep:
  "calls (scrambleSweep R tr opts newChars s) = Suc (calls s)"
  "transform_of (scrambleSweep R tr opts newChars s) = (transform_of s)(calls s := tr)"
  "transformCancelled (scrambleSweep R tr opts newChars s) = (transformCancelled s)(calls s := False)"
  by (simp_all add: scrambleSweep_def Let_def)

text \<open>The closure of a call made before is not written by a later call, only by its own cancel function.\<close>

lemma closure_step:
  assumes "c < calls s"
  shows "c < calls (step R ev s)"
    and "transform_of (step R ev s) c = transform_of s c"
    and "transformCancelled s c \<Longrightarrow> transformCancelled (step R ev s) c"
    and "ev \<noteq> Cancel c \<Longrightarrow> transformCancelled (step R ev s) c = transformCancelled s c"
  using assms by (cases ev; simp add: cancel_def closures_scrambleSweep)+

lemma closure_run:
  assumes "c < calls s"
  shows "c < calls (run R evs s)"
    and "transform_of (run R evs s) c = transform_of s c"
    and "transformCancelled s c \<Longrightarrow> transformCancelled (run R evs s) c"
    and "Cancel c \<notin> set evs \<Longrightarrow> transformCancelled (run R evs s) c = transformCancelled s c"
  using assms
proof (induction evs arbitrary: s)
  case Nil
  {
    case 1 then show ?case by simp
  next
    case 2 then show ?case by simp
  next
    case 3 then show ?case by simp
  next
    case 4 then show ?case by simp
  }
next
  case (Cons ev evs)
  {
    case 1
    from closure_step(1)[OF this, of R ev] show ?case
      by (simp add: run_Cons Cons.IH(1))
  next
    case 2
    from closure_step(1,2)[OF this, of R ev] show ?case
      by (simp add: run_Cons Cons.IH(2))
  next
    case 3
    from closure_step(1)[OF 3(2), of R ev] closure_step(3)[OF 3(2) 3(1), of R ev] show ?case
      by (simp add: run_Cons Cons.IH(3))
  next
    case 4
    then have ne: "ev \<noteq> Cancel c" and rest: "Cancel c \<notin> set evs" by auto
    from closure_step(1)[OF 4(2), of R ev] closure_step(4)[OF 4(2) ne, of R] rest show ?case
      by (simp add: run_Cons Cons.IH(4))
  }
qed

lemma cls_cell_querySelectorAll:
  "r \<in> set (cell_querySelectorAll c el i) \<Longrightarrow> cls (get_span r el) = c"
  by (auto simp: cell_querySelectorAll_def get_span_def)

lemma cls_querySelectorAll:
  "r \<in> set (querySelectorAll c el) \<Longrightarrow> cls (get_span r el) = c"
  by (auto simp: querySelectorAll_def dest: cls_cell_querySelectorAll)

lemma fire_SweepHide:
  assumes "k < length (pending t)" and "snd (pending t ! k) = SweepHide rl newChar"
  shows "cells (fire k t)
     = (case newChar of
          None \<Rightarrow> upd_span rl (\<lambda>sp. sp\<lparr>opacity := ''0''\<rparr>) (cells t)
        | Some c \<Rightarrow> upd_span rl (\<lambda>sp. sp\<lparr>textContent := c\<rparr>)
                     (upd_span rl (\<lambda>sp. sp\<lparr>opacity := ''0''\<rparr>) (cells t)))"
  using assms by (simp add: fire_def Let_def)

lemma exec_SweepRestore:
  "cells (exec (SweepRestore rl c) t)
     = (if transformCancelled t c
        then upd_span rl (\<lambda>sp. sp\<lparr>opacity := ''1''\<rparr>) (cells t)
        else upd_span rl (transform_of t c) (upd_span rl (\<lambda>sp. sp\<lparr>opacity := ''1''\<rparr>) (cells t)))"
  by (simp add: Let_def)

lemma fire_SweepRestore:
  assumes "k < length (pending t)" and "snd (pending t ! k) = SweepRestore rl c"
  shows "cells (fire k t)
     = (if transformCancelled t c
        then upd_span rl (\<lambda>sp. sp\<lparr>opacity := ''1''\<rparr>) (cells t)
        else upd_span rl (transform_of t c) (upd_span rl (\<lambda>sp. sp\<lparr>opacity := ''1''\<rparr>) (cells t)))"
  using assms by (simp add: fire_def Let_def)

text \<open>
  Claim C1. When \<^verbatim>\<open>newChars\<close> has one entry per real span, the sweep registers one
  hidden-phase timer for each real span, in document order, at
  \<open>startDelay + i * charStagger\<close> seconds, carrying \<open>newChars[i]\<close> whatever the span
  shows now (no cell is skipped). When such a timer fires, at any point of the session,
  the span gets opacity \<open>0\<close> and the text \<open>newChars[i]\<close>.
\<close>

theorem sweep_swaps_every_cell:
  assumes "length newChars = length (querySelectorAll ''scramble-real'' (cells s))"
    and "i < length newChars"
    and "k < length (pending (run R evs (scrambleSweep R tr opts (Some newChars) s)))"
    and "snd (pending (run R evs (scrambleSweep R tr opts (Some newChars) s)) ! k)
           = SweepHide (querySelectorAll ''scramble-real'' (cells s) ! i) (Some (newChars ! i))"
  shows "filter is_hide (registered s (scrambleSweep R tr opts (Some newChars) s))
           = map (\<lambda>j. ((default 0 (startDelay opts) + real j * default 0.05 (charStagger opts)) * 1000,
                        SweepHide (querySelectorAll ''scramble-real'' (cells s) ! j) (Some (newChars ! j))))
               [0..<length newChars]
         \<and> get_span (querySelectorAll ''scramble-real'' (cells s) ! i)
              (cells (fire k (run R evs (scrambleSweep R tr opts (Some newChars) s))))
           = (get_span (querySelectorAll ''scramble-real'' (cells s) ! i)
                (cells (run R evs (scrambleSweep R tr opts (Some newChars) s))))
               \<lparr>opacity := ''0'', textContent := newChars ! i\<rparr>"
proof
  show "filter is_hide (registered s (scrambleSweep R tr opts (Some newChars) s))
           = map (\<lambda>j. ((default 0 (startDelay opts) + real j * default 0.05 (charStagger opts)) * 1000,
                        SweepHide (querySelectorAll ''scramble-real'' (cells s) ! j) (Some (newChars ! j))))
               [0..<length newChars]"
    unfolding scrambleSweep_registered(1) using assms(1) by (simp add: new_char_def)
next
  let ?rl = "querySelectorAll ''scramble-real'' (cells s) ! i"
  let ?t = "run R evs (scrambleSweep R tr opts (Some newChars) s)"
  have "?rl \<in> set (querySelectorAll ''scramble-real'' (cells s))"
    using assms(1,2) by simp
  then have "in_element ?rl (cells s)" by (rule querySelectorAll_in_element)
  then have v: "in_element ?rl (cells ?t)" by simp
  have "cells (fire k ?t)
      = upd_span ?rl (\<lambda>sp. sp\<lparr>textContent := newChars ! i\<rparr>)
          (upd_span ?rl (\<lambda>sp. sp\<lparr>opacity := ''0''\<rparr>) (cells ?t))"
    using fire_SweepHide[OF assms(3,4)] by simp
  then show "get_span ?rl (cells (fire k ?t))
      = (get_span ?rl (cells ?t))\<lparr>opacity := ''0'', textContent := newChars ! i\<rparr>"
    using v by (simp add: get_span_upd_span_same)
qed

theorem sweep_swaps_every_cell_witness:
  "map snd (filter is_hide (registered
      (new_session (scramblePrepare (\<lambda>n. 0) (ascii ''ab'') (Some 1) 0))
      (scrambleSweep (\<lambda>n. 0) no_transform no_options (Some [ascii ''a'', ascii ''z''])
         (new_session (scramblePrepare (\<lambda>n. 0) (ascii ''ab'') (Some 1) 0)))))
     = [SweepHide (0, 1) (Some (ascii ''a'')), SweepHide (1, 1) (Some (ascii ''z''))] \<and>
   textContent (get_span (1, 1) (cells (fire 4 (run (\<lambda>n. 0) []
      (scrambleSweep (\<lambda>n. 0) no_transform no_options (Some [ascii ''a'', ascii ''z''])
         (new_session (scramblePrepare (\<lambda>n. 0) (ascii ''ab'') (Some 1) 0))))))) = ascii ''z'' \<and>
   opacity (get_span (1, 1) (cells (fire 4 (run (\<lambda>n. 0) []
      (scrambleSweep (\<lambda>n. 0) no_transform no_options (Some [ascii ''a'', ascii ''z''])
         (new_session (scramblePrepare (\<lambda>n. 0) (ascii ''ab'') (Some 1) 0))))))) = ''0''"
proof -
  let ?s = "new_session (scramblePrepare (\<lambda>n. 0) (ascii ''ab'') (Some 1) 0)"
  let ?nc = "[ascii ''a'', ascii ''z'']"
  let ?t = "run (\<lambda>n. 0) [] (scrambleSweep (\<lambda>n. 0) no_transform no_options (Some ?nc) ?s)"
  have reals: "querySelectorAll ''scramble-real'' (cells ?s) = [(0, 1), (1, 1)]"
    by code_simp
  have h1: "length ?nc = length (querySelectorAll ''scramble-real'' (cells ?s))"
    by (simp add: reals)
  have h2: "1 < length ?nc" by simp
  have h3: "4 < length (pending ?t)" by code_simp
  have "snd (pending ?t ! 4) = SweepHide (1, 1) (Some (ascii ''z''))" by code_simp
  then have h4: "snd (pending ?t ! 4)
      = SweepHide (querySelectorAll ''scramble-real'' (cells ?s) ! 1) (Some (?nc ! 1))"
    by (simp add: reals)
  from sweep_swaps_every_cell[OF h1 h2 h3 h4]
  show ?thesis by (simp add: reals)
qed

text \<open>
  Claim C2. Once the cancel function of a sweep has run, whatever fires and whatever is
  swept or cancelled afterwards, a restore timer of that sweep still sets the real
  span's opacity to \<open>1\<close> when it fires, and does not run the transform on it; it runs
  the sweep's transform as long as the function has not been invoked. The sweep
  registers one restore timer per real span, and cancelling changes neither the pending
  timers nor the document nor the closure of any other sweep.
\<close>

theorem cancel_keeps_restore_timer:
  assumes "i < length (querySelectorAll ''scramble-real'' (cells s))"
    and "k < length (pending (run R (evs @ [Cancel (calls s)] @ evs') (scrambleSweep R tr opts newChars s)))"
    and "snd (pending (run R (evs @ [Cancel (calls s)] @ evs') (scrambleSweep R tr opts newChars s)) ! k)
           = SweepRestore (querySelectorAll ''scramble-real'' (cells s) ! i) (calls s)"
    and "Cancel (calls s) \<notin> set evs"
    and "k' < length (pending (run R evs (scrambleSweep R tr opts newChars s)))"
    and "snd (pending (run R evs (scrambleSweep R tr opts newChars s)) ! k') = SweepRestore rl (calls s)"
  shows "get_span (querySelectorAll ''scramble-real'' (cells s) ! i)
           (cells (fire k (run R (evs @ [Cancel (calls s)] @ evs') (scrambleSweep R tr opts newChars s))))
         = (get_span (querySelectorAll ''scramble-real'' (cells s) ! i)
              (cells (run R (evs @ [Cancel (calls s)] @ evs') (scrambleSweep R tr opts newChars s))))
             \<lparr>opacity := ''1''\<rparr>
       \<and> cells (fire k' (run R evs (scrambleSweep R tr opts newChars s)))
         = upd_span rl tr (upd_span rl (\<lambda>sp. sp\<lparr>opacity := ''1''\<rparr>)
             (cells (run R evs (scrambleSweep R tr opts newChars s))))
       \<and> map snd (filter is_restore (registered s (scrambleSweep R tr opts newChars s)))
         = map (\<lambda>r. SweepRestore r (calls s)) (querySelectorAll ''scramble-real'' (cells s))
       \<and> pending (cancel c u) = pending u \<and> cells (cancel c u) = cells u
       \<and> transform_of (cancel c u) = transform_of u
       \<and> (c' \<noteq> c \<longrightarrow> transformCancelled (cancel c u) c' = transformCancelled u c')"
proof (intro conjI)
  let ?rl = "querySelectorAll ''scramble-real'' (cells s) ! i"
  let ?S = "scrambleSweep R tr opts newChars s"
  let ?t = "run R (evs @ [Cancel (calls s)] @ evs') ?S"
  have id: "calls s < calls ?S" by (simp add: closures_scrambleSweep)
  have "?t = run R evs' (cancel (calls s) (run R evs ?S))"
    by (simp add: run_def)
  moreover have "transformCancelled (cancel (calls s) (run R evs ?S)) (calls s)"
    by (simp add: cancel_def)
  moreover have "calls s < calls (cancel (calls s) (run R evs ?S))"
    using closure_run(1)[OF id, of R evs] by (simp add: cancel_def)
  ultimately have c: "transformCancelled ?t (calls s)"
    using closure_run(3) by simp
  have "?rl \<in> set (querySelectorAll ''scramble-real'' (cells s))"
    using assms(1) by simp
  then have "in_element ?rl (cells s)" by (rule querySelectorAll_in_element)
  then have v: "in_element ?rl (cells ?t)" by simp
  have "cells (fire k ?t) = upd_span ?rl (\<lambda>sp. sp\<lparr>opacity := ''1''\<rparr>) (cells ?t)"
    using fire_SweepRestore[OF assms(2,3)] c by simp
  then show "get_span ?rl (cells (fire k ?t)) = (get_span ?rl (cells ?t))\<lparr>opacity := ''1''\<rparr>"
    using v by (simp add: get_span_upd_span_same)
  have "transformCancelled (run R evs ?S) (calls s) = transformCancelled ?S (calls s)"
    using closure_run(4)[OF id assms(4)] .
  then have n: "\<not> transformCancelled (run R evs ?S) (calls s)"
    by (simp add: closures_scrambleSweep)
  have "transform_of (run R evs ?S) (calls s) = transform_of ?S (calls s)"
    using closure_run(2)[OF id] .
  then have f: "transform_of (run R evs ?S) (calls s) = tr"
    by (simp add: closures_scrambleSweep)
  show "cells (fire k' (run R evs ?S))
      = upd_span rl tr (upd_span rl (\<lambda>sp. sp\<lparr>opacity := ''1''\<rparr>) (cells (run R evs ?S)))"
    using fire_SweepRestore[OF assms(5,6)] n f by simp
  show "map snd (filter is_restore (registered s ?S))
      = map (\<lambda>r. SweepRestore r (calls s)) (querySelectorAll ''scramble-real'' (cells s))"
    by (rule scrambleSweep_registered(2))
  show "pending (cancel c u) = pending u" by (simp add: cancel_def)
  show "cells (cancel c u) = cells u" by (simp add: cancel_def)
  show "transform_of (cancel c u) = transform_of u" by (simp add: cancel_def)
  show "c' \<noteq> c \<longrightarrow> transformCancelled (cancel c u) c' = transformCancelled u c'"
    by (simp add: cancel_def)
qed

theorem cancel_keeps_restore_timer_witness:
  "color (get_span (0, 1) (cells (fire 2
      (run (\<lambda>n. 0) ([Tick] @ [Cancel 0] @ [Sweep hover_transform no_options None])
        (scrambleSweep (\<lambda>n. 0) hover_transform no_options None
          (new_session (scramblePrepare (\<lambda>n. 0) (ascii ''a'') (Some 1) 0))))))) = [] \<and>
   opacity (get_span (0, 1) (cells (fire 2
      (run (\<lambda>n. 0) ([Tick] @ [Cancel 0] @ [Sweep hover_transform no_options None])
        (scrambleSweep (\<lambda>n. 0) hover_transform no_options None
          (new_session (scramblePrepare (\<lambda>n. 0) (ascii ''a'') (Some 1) 0))))))) = ''1'' \<and>
   color (get_span (0, 1) (cells (fire 2
      (run (\<lambda>n. 0) [Tick]
        (scrambleSweep (\<lambda>n. 0) hover_transform no_options None
          (new_session (scramblePrepare (\<lambda>n. 0) (ascii ''a'') (Some 1) 0))))))) = ''black''"
proof -
  let ?s = "new_session (scramblePrepare (\<lambda>n. 0) (ascii ''a'') (Some 1) 0)"
  let ?S = "scrambleSweep (\<lambda>n. 0) hover_transform no_options None ?s"
  let ?again = "Sweep hover_transform no_options None"
  let ?t = "run (\<lambda>n. 0) ([Tick] @ [Cancel (calls ?s)] @ [?again]) ?S"
  let ?u = "run (\<lambda>n. 0) [Tick] ?S"
  have c0: "calls ?s = 0" by (simp add: new_session_def)
  have reals: "querySelectorAll ''scramble-real'' (cells ?s) = [(0, 1)]"
    by code_simp
  have rl: "querySelectorAll ''scramble-real'' (cells ?s) ! 0 = (0, 1)"
    by (simp add: reals)
  have h1: "0 < length (querySelectorAll ''scramble-real'' (cells ?s))"
    by (simp add: reals)
  have h2: "2 < length (pending ?t)" by code_simp
  have "snd (pending ?t ! 2) = SweepRestore (0, 1) 0" by code_simp
  then have h3: "snd (pending ?t ! 2)
      = SweepRestore (querySelectorAll ''scramble-real'' (cells ?s) ! 0) (calls ?s)"
    by (simp only: rl c0)
  have h4: "Cancel (calls ?s) \<notin> set [Tick]" by simp
  have h5: "2 < length (pending ?u)" by code_simp
  have "snd (pending ?u ! 2) = SweepRestore (0, 1) 0" by code_simp
  then have h6: "snd (pending ?u ! 2) = SweepRestore (0, 1) (calls ?s)"
    by (simp only: c0)
  note T = cancel_keeps_restore_timer[OF h1 h2 h3 h4 h5 h6, unfolded rl c0]
  have e1: "get_span (0, 1)
        (cells (run (\<lambda>n. 0) ([Tick] @ [Cancel 0] @ [?again]) ?S))
      = \<lparr>cls = ''scramble-real'', textContent = ascii ''a'', display = [], opacity = ''0'',
         position = [], left = [], transition = NoTransition, color = [], aria_hidden = False\<rparr>"
    by code_simp
  have e2: "get_span (0, 1) (upd_span (0, 1) hover_transform
        (upd_span (0, 1) (\<lambda>sp. sp\<lparr>opacity := ''1''\<rparr>) (cells ?u)))
      = \<lparr>cls = ''scramble-real'', textContent = ascii ''a'', display = [], opacity = ''1'',
         position = [], left = [], transition = NoTransition, color = ''black'', aria_hidden = False\<rparr>"
    by code_simp
  have 1: "get_span (0, 1) (cells (fire 2 (run (\<lambda>n. 0) ([Tick] @ [Cancel 0] @ [?again]) ?S)))
      = \<lparr>cls = ''scramble-real'', textContent = ascii ''a'', display = [], opacity = ''1'',
         position = [], left = [], transition = NoTransition, color = [], aria_hidden = False\<rparr>"
    using T[THEN conjunct1] unfolding e1 by simp
  have 2: "get_span (0, 1) (cells (fire 2 ?u))
      = \<lparr>cls = ''scramble-real'', textContent = ascii ''a'', display = [], opacity = ''1'',
         position = [], left = [], transition = NoTransition, color = ''black'', aria_hidden = False\<rparr>"
    using T[THEN conjunct2, THEN conjunct1] by (simp only: e2)
  show ?thesis unfolding 1 2 by simp
qed

section \<open>What a whole sweep does to a real span\<close>

lemma pending_exec [simp]: "pending (exec t s) = pending s"
  by (cases t) simp_all












section \<open>The transform and the fake spans\<close>

lemma exec_fake_span_any_transform:
  assumes "\<And>r c. t = SweepRestore r c \<Longrightarrow> r \<noteq> fake"
  shows "get_span fake (cells (exec t s))
       = get_span fake (cells (exec t (s\<lparr>transform_of := F, transformCancelled := G\<rparr>)))"
proof (cases t)
  case (SweepRestore r c)
  with assms have "fake \<noteq> r" by auto
  then show ?thesis
    using SweepRestore by (simp add: Let_def get_span_upd_span_other)
qed simp_all

text \<open>
  Claim C3, as the code has it. In an element whose cells hold one real span each, the
  loop of \<^verbatim>\<open>scrambleSweep\<close> applies the transform to every fake span at once, right
  after it re-randomised the glyph: when the call returns, before any timer has fired
  and before the caller holds the cancel function, each fake span is the transform of
  the old span with a fresh glyph. No timer of the sweep applies the transform to a
  fake span (what a timer does to it is the same whatever the transforms and the
  cancelled flags of the calls are), and cancelling does not touch the document; at
  restore time the transform of the call, which stays the one passed to it, is applied
  to the real span only, and only when that call was not cancelled.
\<close>

theorem sweep_transforms_fakes_at_once:
  assumes "distinct (map parentElement (querySelectorAll ''scramble-real'' (cells s)))"
    and "rl \<in> set (querySelectorAll ''scramble-real'' (cells s))"
    and "fake \<in> set (cell_querySelectorAll ''scramble-fake'' (cells s) (parentElement rl))"
    and "x \<in> set (registered s (scrambleSweep R tr opts newChars s))"
  shows "(\<exists>m. get_span fake (cells (scrambleSweep R tr opts newChars s))
              = tr ((get_span fake (cells s))\<lparr>textContent := assigned_text (random_glyph (R m))\<rparr>))
       \<and> get_span fake (cells (exec (snd x) t))
         = get_span fake (cells (exec (snd x) (t\<lparr>transform_of := F, transformCancelled := G\<rparr>)))
       \<and> cells (cancel c t) = cells t
       \<and> cells (exec (SweepRestore rl c) t)
         = (if transformCancelled t c
            then upd_span rl (\<lambda>sp. sp\<lparr>opacity := ''1''\<rparr>) (cells t)
            else upd_span rl (transform_of t c) (upd_span rl (\<lambda>sp. sp\<lparr>opacity := ''1''\<rparr>) (cells t)))
       \<and> transform_of (run R evs (scrambleSweep R tr opts newChars s)) (calls s) = tr"
proof (intro conjI)
  let ?reals = "querySelectorAll ''scramble-real'' (cells s)"
  let ?s0 = "s\<lparr>calls := Suc (calls s), transform_of := (transform_of s)(calls s := tr),
      transformCancelled := (transformCancelled s)(calls s := False)\<rparr>"
  have "in_element rl (cells s)"
    using assms(2) by (rule querySelectorAll_in_element)
  then have "parentElement rl < length (cells s)"
    by (simp add: in_element_def parentElement_def)
  from cell_querySelectorAll_in_element[OF this assms(3)]
  have v: "in_element fake (cells ?s0)" by simp
  have f: "fake \<in> set (cell_querySelectorAll ''scramble-fake'' (cells ?s0) (parentElement rl))"
    using assms(3) by simp
  have "\<exists>m. get_span fake (cells (sweep_loop R tr (calls s) (default 0.05 (charStagger opts))
        (default 0.12 (fakeDuration opts)) (default 0.016 (fakeStagger opts))
        (default 0 (startDelay opts)) newChars ?reals 0 0 ?s0))
      = tr ((get_span fake (cells ?s0))\<lparr>textContent := assigned_text (random_glyph (R m))\<rparr>)"
    by (rule sweep_loop_fake_span[OF assms(1,2) f v]) simp
  then show "\<exists>m. get_span fake (cells (scrambleSweep R tr opts newChars s))
      = tr ((get_span fake (cells s))\<lparr>textContent := assigned_text (random_glyph (R m))\<rparr>)"
    by (simp add: scrambleSweep_def Let_def)
  have fake_cls: "cls (get_span fake (cells s)) = ''scramble-fake''"
    using assms(3) by (rule cls_cell_querySelectorAll)
  have not_real: "r \<noteq> fake" if "snd x = SweepRestore r c'" for r c'
  proof -
    from that have "is_restore x" by (simp add: is_restore_def)
    with assms(4) have "snd x \<in> set (map snd (filter is_restore (registered s (scrambleSweep R tr opts newChars s))))"
      by simp
    then have "SweepRestore r c' \<in> (\<lambda>r. SweepRestore r (calls s)) ` set ?reals"
      unfolding scrambleSweep_registered(2) using that by simp
    then have "r \<in> set ?reals" by auto
    then have "cls (get_span r (cells s)) = ''scramble-real''"
      by (rule cls_querySelectorAll)
    with fake_cls show ?thesis by auto
  qed
  show "get_span fake (cells (exec (snd x) t))
      = get_span fake (cells (exec (snd x) (t\<lparr>transform_of := F, transformCancelled := G\<rparr>)))"
    by (rule exec_fake_span_any_transform) (use not_real in blast)
  show "cells (cancel c t) = cells t" by (simp add: cancel_def)
  show "cells (exec (SweepRestore rl c) t)
      = (if transformCancelled t c
         then upd_span rl (\<lambda>sp. sp\<lparr>opacity := ''1''\<rparr>) (cells t)
         else upd_span rl (transform_of t c) (upd_span rl (\<lambda>sp. sp\<lparr>opacity := ''1''\<rparr>) (cells t)))"
    by (rule exec_SweepRestore)
  have "calls s < calls (scrambleSweep R tr opts newChars s)"
    by (simp add: closures_scrambleSweep)
  from closure_run(2)[OF this]
  show "transform_of (run R evs (scrambleSweep R tr opts newChars s)) (calls s) = tr"
    by (simp add: closures_scrambleSweep)
qed

theorem sweep_transforms_fakes_at_once_witness:
  "color (get_span (0, 0) (cells (scrambleSweep (\<lambda>n. 0) hover_transform no_options None
      (new_session (scramblePrepare (\<lambda>n. 0) (ascii ''a'') (Some 1) 0))))) = ''black'' \<and>
   get_span (0, 0) (cells (exec (SweepRestore (0, 1) 0)
      (scrambleSweep (\<lambda>n. 0) hover_transform no_options None
        (new_session (scramblePrepare (\<lambda>n. 0) (ascii ''a'') (Some 1) 0)))))
   = get_span (0, 0) (cells (exec (SweepRestore (0, 1) 0)
      ((scrambleSweep (\<lambda>n. 0) hover_transform no_options None
        (new_session (scramblePrepare (\<lambda>n. 0) (ascii ''a'') (Some 1) 0)))
         \<lparr>transform_of := (\<lambda>c. no_transform), transformCancelled := (\<lambda>c. True)\<rparr>)))"
proof -
  let ?s = "new_session (scramblePrepare (\<lambda>n. 0) (ascii ''a'') (Some 1) 0)"
  let ?S = "scrambleSweep (\<lambda>n. 0) hover_transform no_options None ?s"
  have reals: "querySelectorAll ''scramble-real'' (cells ?s) = [(0, 1)]"
    by code_simp
  have fakes: "cell_querySelectorAll ''scramble-fake'' (cells ?s) 0 = [(0, 0)]"
    by code_simp
  have h1: "distinct (map parentElement (querySelectorAll ''scramble-real'' (cells ?s)))"
    by (simp add: reals)
  have h2: "(0, 1) \<in> set (querySelectorAll ''scramble-real'' (cells ?s))"
    by (simp add: reals)
  have h3: "(0, 0) \<in> set (cell_querySelectorAll ''scramble-fake'' (cells ?s) (parentElement (0, 1)))"
    by (simp add: fakes parentElement_def)
  have "registered ?s ?S ! 3 = (136, SweepRestore (0, 1) 0)" by code_simp
  moreover have "3 < length (registered ?s ?S)" by code_simp
  ultimately have h4: "(136, SweepRestore (0, 1) 0) \<in> set (registered ?s ?S)"
    by (metis nth_mem)
  note T = sweep_transforms_fakes_at_once[OF h1 h2 h3 h4, where t = ?S
      and F = "\<lambda>c. no_transform" and G = "\<lambda>c. True"]
  from T[THEN conjunct1] have 1: "color (get_span (0, 0) (cells ?S)) = ''black''"
    by (auto simp: hover_transform_def)
  from T[THEN conjunct2, THEN conjunct1]
  have 2: "get_span (0, 0) (cells (exec (SweepRestore (0, 1) 0) ?S))
      = get_span (0, 0) (cells (exec (SweepRestore (0, 1) 0)
          (?S\<lparr>transform_of := (\<lambda>c. no_transform), transformCancelled := (\<lambda>c. True)\<rparr>)))"
    by simp
  from 1 2 show ?thesis by (intro conjI)
qed

text \<open>
  Claim C3 as stated fails. The link hover sweeps a one-character element with one fake
  span and the transform that colours a span black. When \<^verbatim>\<open>scrambleSweep\<close> returns,
  all four timers of the cell are still pending, none of its fakes has been shown, and
  the fake span is already black. Cancelling at once and then letting the four timers
  fire leaves the fake span black, while the real span, whose transform is cancelled,
  keeps its colour.
\<close>

theorem fake_transform_not_deferred:
  "length (pending (scrambleSweep (\<lambda>n. 0) hover_transform no_options None
      (new_session (scramblePrepare (\<lambda>n. 0) (ascii ''a'') (Some 1) 0)))) = 4 \<and>
   cls (get_span (0, 0) (cells (scrambleSweep (\<lambda>n. 0) hover_transform no_options None
      (new_session (scramblePrepare (\<lambda>n. 0) (ascii ''a'') (Some 1) 0))))) = ''scramble-fake'' \<and>
   color (get_span (0, 0) (cells (new_session (scramblePrepare (\<lambda>n. 0) (ascii ''a'') (Some 1) 0)))) = [] \<and>
   color (get_span (0, 0) (cells (scrambleSweep (\<lambda>n. 0) hover_transform no_options None
      (new_session (scramblePrepare (\<lambda>n. 0) (ascii ''a'') (Some 1) 0))))) = ''black'' \<and>
   pending (run (\<lambda>n. 0) [Cancel 0, Tick, Tick, Tick, Tick]
      (scrambleSweep (\<lambda>n. 0) hover_transform no_options None
        (new_session (scramblePrepare (\<lambda>n. 0) (ascii ''a'') (Some 1) 0)))) = [] \<and>
   color (get_span (0, 0) (cells (run (\<lambda>n. 0) [Cancel 0, Tick, Tick, Tick, Tick]
      (scrambleSweep (\<lambda>n. 0) hover_transform no_options None
        (new_session (scramblePrepare (\<lambda>n. 0) (ascii ''a'') (Some 1) 0)))))) = ''black'' \<and>
   color (get_span (0, 1) (cells (run (\<lambda>n. 0) [Cancel 0, Tick, Tick, Tick, Tick]
      (scrambleSweep (\<lambda>n. 0) hover_transform no_options None
        (new_session (scramblePrepare (\<lambda>n. 0) (ascii ''a'') (Some 1) 0)))))) = []"
  by code_simp

section \<open>Reading the text back\<close>

lemma map_filter_nth_upt:
  "map (\<lambda>j. f (xs ! j)) (filter (\<lambda>j. P (xs ! j)) [0..<length xs]) = map f (filter P xs)"
proof -
  have "map f (filter P xs) = map f (filter P (map (nth xs) [0..<length xs]))"
    by (simp add: map_nth)
  also have "\<dots> = map (\<lambda>j. f (xs ! j)) (filter (\<lambda>j. P (xs ! j)) [0..<length xs])"
    by (simp add: filter_map comp_def)
  finally show ?thesis by simp
qed

lemma map_nth_upt: "map (\<lambda>i. h (xs ! i)) [0..<length xs] = map h xs"
proof -
  have "map h xs = map h (map (nth xs) [0..<length xs])" by (simp add: map_nth)
  then show ?thesis by (simp add: comp_def)
qed

lemma scrambleGetChars_cells:
  "scrambleGetChars el
     = concat (map (\<lambda>c. map textContent (filter (\<lambda>sp. cls sp = ''scramble-real'') (children c))) el)"
proof -
  have cellwise: "map (\<lambda>rl. textContent (get_span rl el)) (cell_querySelectorAll ''scramble-real'' el i)
      = map textContent (filter (\<lambda>sp. cls sp = ''scramble-real'') (children (el ! i)))" for i
    using map_filter_nth_upt[of textContent "children (el ! i)" "\<lambda>sp. cls sp = ''scramble-real''"]
    by (simp add: cell_querySelectorAll_def get_span_def comp_def)
  have "scrambleGetChars el
      = concat (map (\<lambda>i. map (\<lambda>rl. textContent (get_span rl el)) (cell_querySelectorAll ''scramble-real'' el i))
          [0..<length el])"
    by (simp add: scrambleGetChars_def querySelectorAll_def map_concat comp_def Let_def)
  also have "\<dots> = concat (map (\<lambda>i. map textContent (filter (\<lambda>sp. cls sp = ''scramble-real'') (children (el ! i))))
          [0..<length el])"
    by (simp add: cellwise)
  also have "\<dots> = concat (map (\<lambda>c. map textContent (filter (\<lambda>sp. cls sp = ''scramble-real'') (children c))) el)"
    using map_nth_upt[of "\<lambda>c. map textContent (filter (\<lambda>sp. cls sp = ''scramble-real'') (children c))" el]
    by simp
  finally show ?thesis .
qed

lemma scrambleGetChars_skeleton:
  "scrambleGetChars el
     = concat (map (\<lambda>row. map snd (filter (\<lambda>p. fst p = ''scramble-real'') row)) (skeleton el))"
  by (simp add: scrambleGetChars_cells skeleton_def filter_map comp_def)

lemma skeleton_upd_span:
  assumes "\<And>sp. cls (f sp) = cls sp" and "\<And>sp. textContent (f sp) = textContent sp"
  shows "skeleton (upd_span r f el) = skeleton el"
proof (cases "in_element r el")
  case False
  then have "upd_span r f el = el" by (auto simp: upd_span_def in_element_def)
  then show ?thesis by simp
next
  case True
  let ?g = "\<lambda>sp. (cls sp, textContent sp)"
  let ?row = "\<lambda>c. map ?g (children c)"
  have "?g (f (get_span r el)) = map ?g (children (el ! fst r)) ! snd r"
    using True by (simp add: assms get_span_def in_element_def)
  then have "map ?g ((children (el ! fst r))[snd r := f (get_span r el)]) = map ?g (children (el ! fst r))"
    by (simp only: map_update list_update_id)
  then have "?row ((el ! fst r)\<lparr>children := (children (el ! fst r))[snd r := f (get_span r el)]\<rparr>)
      = ?row (el ! fst r)"
    by simp
  moreover have "?row (el ! fst r) = map ?row el ! fst r"
    using True by (simp add: in_element_def)
  ultimately have "map ?row (el[fst r := (el ! fst r)\<lparr>children := (children (el ! fst r))[snd r := f (get_span r el)]\<rparr>])
      = map ?row el"
    by (simp only: map_update list_update_id)
  then show ?thesis
    using True by (simp add: skeleton_def upd_span_def in_element_def)
qed

lemma cell_querySelectorAll_skeleton:
  assumes "skeleton el = skeleton el'" and "i < length el"
  shows "cell_querySelectorAll c el i = cell_querySelectorAll c el' i"
proof -
  from assms(1) have "length (skeleton el) = length (skeleton el')" by simp
  then have len: "length el = length el'" by (simp add: skeleton_def)
  from assms(1) have "skeleton el ! i = skeleton el' ! i" by simp
  then have row: "map (\<lambda>sp. (cls sp, textContent sp)) (children (el ! i))
      = map (\<lambda>sp. (cls sp, textContent sp)) (children (el' ! i))"
    using assms(2) len by (simp add: skeleton_def)
  from row have "length (map (\<lambda>sp. (cls sp, textContent sp)) (children (el ! i)))
      = length (map (\<lambda>sp. (cls sp, textContent sp)) (children (el' ! i)))"
    by simp
  then have l: "length (children (el ! i)) = length (children (el' ! i))"
    by simp
  have "cls (children (el ! i) ! j) = cls (children (el' ! i) ! j)" if "j < length (children (el ! i))" for j
  proof -
    have "map (\<lambda>sp. (cls sp, textContent sp)) (children (el ! i)) ! j
        = map (\<lambda>sp. (cls sp, textContent sp)) (children (el' ! i)) ! j"
      using row by simp
    then show ?thesis using that l by simp
  qed
  then have "filter (\<lambda>j. cls (children (el ! i) ! j) = c) [0..<length (children (el ! i))]
      = filter (\<lambda>j. cls (children (el' ! i) ! j) = c) [0..<length (children (el ! i))]"
    by (intro filter_cong) auto
  then show ?thesis by (simp add: cell_querySelectorAll_def l)
qed

section \<open>scrambleReveal returns and keeps the text\<close>

lemma reveal_hide_ok:
  assumes "\<forall>c \<in> set chars. c < length el \<and> cell_querySelectorAll ''scramble-real'' el c \<noteq> []"
  shows "\<exists>el'. reveal_hide chars el = Some el' \<and> skeleton el' = skeleton el"
  using assms
proof (induction chars arbitrary: el)
  case Nil
  then show ?case by simp
next
  case (Cons c rest)
  from Cons.prems obtain rl where rl: "cell_querySelector ''scramble-real'' el c = Some rl"
    by (cases "cell_querySelectorAll ''scramble-real'' el c") (simp_all add: cell_querySelector_def)
  let ?el = "upd_span rl (\<lambda>sp. sp\<lparr>opacity := ''0''\<rparr>) el"
  have sk: "skeleton ?el = skeleton el"
    by (rule skeleton_upd_span) simp_all
  have "\<forall>c \<in> set rest. c < length ?el \<and> cell_querySelectorAll ''scramble-real'' ?el c \<noteq> []"
  proof
    fix d assume d: "d \<in> set rest"
    with Cons.prems have 1: "d < length el" "cell_querySelectorAll ''scramble-real'' el d \<noteq> []"
      by auto
    have "cell_querySelectorAll ''scramble-real'' ?el d = cell_querySelectorAll ''scramble-real'' el d"
      by (rule cell_querySelectorAll_skeleton[OF sk]) (simp add: 1)
    with 1 show "d < length ?el \<and> cell_querySelectorAll ''scramble-real'' ?el d \<noteq> []"
      by simp
  qed
  from Cons.IH[OF this] obtain el' where "reveal_hide rest ?el = Some el'" "skeleton el' = skeleton ?el"
    by blast
  with rl sk show ?case by simp
qed

lemma reveal_fakes_tasks: "list_all reveal_task (reveal_fakes fS fD b fakes fi)"
  by (induction fakes arbitrary: fi) (simp_all add: Let_def reveal_task_def)

lemma reveal_loop_ok:
  assumes "\<forall>c \<in> set chars. cell_querySelectorAll ''scramble-real'' (cells s) c \<noteq> []"
    and "list_all reveal_task (pending s)"
  shows "\<exists>s'. reveal_loop cS fD fS rD sD chars i s = Some s' \<and> cells s' = cells s
           \<and> list_all reveal_task (pending s')"
  using assms
proof (induction chars arbitrary: i s)
  case Nil
  then show ?case by simp
next
  case (Cons c rest)
  from Cons.prems(1) obtain rl where rl: "cell_querySelector ''scramble-real'' (cells s) c = Some rl"
    by (cases "cell_querySelectorAll ''scramble-real'' (cells s) c") (simp_all add: cell_querySelector_def)
  let ?b = "sD + real i * cS"
  let ?s1 = "s\<lparr>pending := pending s
      @ reveal_fakes fS fD ?b (cell_querySelectorAll ''scramble-fake'' (cells s) c) 0
      @ [(?b * 1000, RevealFade rl rD)]\<rparr>"
  have 1: "\<forall>c \<in> set rest. cell_querySelectorAll ''scramble-real'' (cells ?s1) c \<noteq> []"
    using Cons.prems(1) by simp
  have "reveal_task (?b * 1000, RevealFade rl rD)"
    by (simp add: reveal_task_def)
  then have 2: "list_all reveal_task (pending ?s1)"
    using Cons.prems(2) by (simp add: reveal_fakes_tasks)
  from Cons.IH[OF 1 2, of "Suc i"] obtain s' where
    "reveal_loop cS fD fS rD sD rest (Suc i) ?s1 = Some s'" "cells s' = cells ?s1"
    "list_all reveal_task (pending s')"
    by blast
  with rl show ?case by (simp add: Let_def)
qed

lemma reals_have_parent:
  assumes "c \<in> set (map parentElement (querySelectorAll ''scramble-real'' el))"
  shows "c < length el \<and> cell_querySelectorAll ''scramble-real'' el c \<noteq> []"
proof -
  from assms obtain r where r: "r \<in> set (querySelectorAll ''scramble-real'' el)" "c = fst r"
    by (auto simp: parentElement_def)
  then obtain i where i: "i < length el" "r \<in> set (cell_querySelectorAll ''scramble-real'' el i)"
    by (auto simp: querySelectorAll_def)
  then have "fst r = i" by (auto dest: fst_cell_querySelectorAll)
  with r i show ?thesis by auto
qed

lemma scrambleReveal_ok:
  assumes "list_all reveal_task (pending s)"
  shows "\<exists>s'. scrambleReveal opts s = Some s' \<and> skeleton (cells s') = skeleton (cells s)
           \<and> list_all reveal_task (pending s')"
proof -
  let ?chars = "map parentElement (querySelectorAll ''scramble-real'' (cells s))"
  let ?s1 = "s\<lparr>el_opacity := ''1''\<rparr>"
  have c: "\<forall>c \<in> set ?chars. c < length (cells ?s1) \<and> cell_querySelectorAll ''scramble-real'' (cells ?s1) c \<noteq> []"
    using reals_have_parent[of _ "cells s"] by simp
  from reveal_hide_ok[OF this] obtain el' where
    el': "reveal_hide ?chars (cells ?s1) = Some el'" "skeleton el' = skeleton (cells ?s1)"
    by blast
  have "\<forall>c \<in> set ?chars. cell_querySelectorAll ''scramble-real'' (cells (?s1\<lparr>cells := el'\<rparr>)) c \<noteq> []"
  proof
    fix d assume "d \<in> set ?chars"
    with c have d: "d < length (cells ?s1)" "cell_querySelectorAll ''scramble-real'' (cells ?s1) d \<noteq> []"
      by auto
    have "cell_querySelectorAll ''scramble-real'' (cells ?s1) d = cell_querySelectorAll ''scramble-real'' el' d"
      by (rule cell_querySelectorAll_skeleton[OF el'(2)[symmetric] d(1)])
    with d(2) show "cell_querySelectorAll ''scramble-real'' (cells (?s1\<lparr>cells := el'\<rparr>)) d \<noteq> []"
      by simp
  qed
  moreover have "list_all reveal_task (pending (?s1\<lparr>cells := el'\<rparr>))"
    using assms by simp
  ultimately obtain s' where
    "reveal_loop (default 0.05 (charStagger opts)) (default 0.16 (fakeDuration opts))
       (default 0.016 (fakeStagger opts)) (default 0.3 (revealDuration opts))
       (default 0 (startDelay opts)) ?chars 0 (?s1\<lparr>cells := el'\<rparr>) = Some s'"
    "cells s' = cells (?s1\<lparr>cells := el'\<rparr>)" "list_all reveal_task (pending s')"
    using reveal_loop_ok by blast
  with el' show ?thesis
    by (simp add: scrambleReveal_def Let_def)
qed

section \<open>Running the timers of a reveal\<close>

lemma skeleton_exec_reveal:
  assumes "reveal_task (d, t)"
  shows "skeleton (cells (exec t s)) = skeleton (cells s)"
  using assms by (cases t) (simp_all add: reveal_task_def skeleton_upd_span)

lemma reveal_fire:
  assumes "list_all reveal_task (pending s)"
  shows "skeleton (cells (fire k s)) = skeleton (cells s) \<and> list_all reveal_task (pending (fire k s))"
proof (cases "k < length (pending s)")
  case False
  then show ?thesis using assms by (simp add: fire_def)
next
  case True
  with assms have "reveal_task (pending s ! k)"
    by (simp add: list_all_length)
  then have "reveal_task (fst (pending s ! k), snd (pending s ! k))" by simp
  then have "skeleton (cells (exec (snd (pending s ! k))
        (s\<lparr>pending := take k (pending s) @ drop (Suc k) (pending s)\<rparr>)))
      = skeleton (cells (s\<lparr>pending := take k (pending s) @ drop (Suc k) (pending s)\<rparr>))"
    by (rule skeleton_exec_reveal)
  then have 1: "skeleton (cells (fire k s)) = skeleton (cells s)"
    using True by (simp add: fire_def)
  have "set (take k (pending s) @ drop (Suc k) (pending s)) \<subseteq> set (pending s)"
    using set_take_subset[of k "pending s"] set_drop_subset[of "Suc k" "pending s"] by auto
  with assms have "list_all reveal_task (take k (pending s) @ drop (Suc k) (pending s))"
    unfolding list_all_iff by blast
  then have 2: "list_all reveal_task (pending (fire k s))"
    using True by (simp add: fire_def)
  from 1 2 show ?thesis by simp
qed

lemma reveal_step:
  assumes "list_all reveal_task (pending s)" and "timer_event ev"
  shows "skeleton (cells (step R ev s)) = skeleton (cells s) \<and> list_all reveal_task (pending (step R ev s))"
  using assms reveal_fire by (cases ev) (simp_all add: cancel_def)

lemma reveal_run:
  assumes "list_all reveal_task (pending s)" and "list_all timer_event evs"
  shows "skeleton (cells (run R evs s)) = skeleton (cells s)"
  using assms
proof (induction evs arbitrary: s)
  case Nil
  then show ?case by simp
next
  case (Cons ev evs)
  from Cons.prems(2) have ev: "timer_event ev" and evs: "list_all timer_event evs"
    by simp_all
  from reveal_step[OF Cons.prems(1) ev, of R]
  have 1: "skeleton (cells (step R ev s)) = skeleton (cells s)"
    and 2: "list_all reveal_task (pending (step R ev s))"
    by simp_all
  from Cons.IH[OF 2 evs] 1 show ?case by (simp add: run_Cons)
qed

lemma next_due_from_bound:
  "best < k \<Longrightarrow> next_due_from best d k ts < k + length ts"
proof (induction ts arbitrary: best d k)
  case Nil
  then show ?case by simp
next
  case (Cons t ts)
  have 1: "next_due_from k (fst t) (Suc k) ts < Suc k + length ts"
    by (rule Cons.IH) simp
  have 2: "next_due_from best d (Suc k) ts < Suc k + length ts"
    by (rule Cons.IH) (use Cons.prems in simp)
  from 1 2 show ?case by simp
qed

lemma next_due_bound: "ts \<noteq> [] \<Longrightarrow> next_due ts < length ts"
  using next_due_from_bound[of 0 1]
  by (cases ts) (auto simp: next_due_def)

lemma length_pending_Tick:
  "pending s \<noteq> [] \<Longrightarrow> length (pending (step R Tick s)) = length (pending s) - 1"
  using next_due_bound[of "pending s"] by (simp add: fire_def)

lemma run_all_ticks:
  "length (pending s) = n \<Longrightarrow> pending (run R (replicate n Tick) s) = []"
proof (induction n arbitrary: s)
  case 0
  then show ?case by simp
next
  case (Suc n)
  then have "pending s \<noteq> []" by auto
  from length_pending_Tick[OF this, of R] Suc.prems
  have "length (pending (step R Tick s)) = n" by simp
  from Suc.IH[OF this] show ?case by (simp add: run_Cons)
qed

lemma timer_event_ticks: "list_all timer_event (replicate n Tick)"
  by (induction n) simp_all

text \<open>
  A surrogate is no whitespace unit, so a whitespace character is one whitespace unit,
  and leaving out the whitespace characters leaves out the whitespace units.
\<close>

lemma surrogate_not_whitespace:
  assumes u: "55296 \<le> u" and u': "u \<le> 57343"
  shows "\<not> is_whitespace_unit u"
proof
  assume "is_whitespace_unit u"
  then consider "u \<in> set [9, 10, 11, 12, 13, 32, 160, 5760, 8232, 8233, 8239, 8287, 12288, 65279]"
    | "8192 \<le> u \<and> u \<le> 8202"
    by (auto simp: is_whitespace_unit_def)
  then show False
  proof cases
    case 1
    with u u' show False by auto
  next
    case 2
    with u have "(55296 :: 16 word) \<le> 8202" by (meson order_trans)
    then show False by simp
  qed
qed

lemma concat_splitText:
  "concat (splitText str) = filter (\<lambda>u. \<not> is_whitespace_unit u) str"
proof -
  have "concat (filter (\<lambda>ch. \<not> is_whitespace ch) (characters str))
      = filter (\<lambda>u. \<not> is_whitespace_unit u) str"
  proof (induction str rule: characters.induct)
    case 1
    then show ?case by simp
  next
    case (2 u)
    then show ?case by (simp add: is_whitespace_def)
  next
    case (3 u v rest)
    show ?case
    proof (cases "high_surrogate u \<and> low_surrogate v")
      case True
      then have u: "55296 \<le> u" "u \<le> 56319" and v: "56320 \<le> v" "v \<le> 57343"
        by (simp_all add: high_surrogate_def low_surrogate_def)
      have "u \<le> 57343" by (rule order_trans[OF u(2)]) simp
      moreover have "55296 \<le> v" by (rule order_trans[OF _ v(1)]) simp
      ultimately have "\<not> is_whitespace_unit u" "\<not> is_whitespace_unit v"
        using u(1) v(2) by (simp_all add: surrogate_not_whitespace)
      with True 3(1)[OF True] show ?thesis by (simp add: is_whitespace_def)
    next
      case False
      then have "characters (u # v # rest) = [u] # characters (v # rest)"
        by auto
      with 3(2)[OF False] show ?thesis by (simp add: is_whitespace_def)
    qed
  qed
  then show ?thesis by (simp add: splitText_def)
qed

lemma scrambleGetChars_prepare_chars:
  "scrambleGetChars (fst (prepare_chars R k chars n)) = chars"
proof -
  let ?el = "fst (prepare_chars R k chars n)"
  have "map (\<lambda>c. map textContent (filter (\<lambda>sp. cls sp = ''scramble-real'') (children c))) ?el
      = map (\<lambda>original. [original]) chars"
  proof (rule nth_equalityI)
    show "length (map (\<lambda>c. map textContent (filter (\<lambda>sp. cls sp = ''scramble-real'') (children c))) ?el)
        = length (map (\<lambda>original. [original]) chars)"
      by (simp add: length_prepare_chars)
  next
    fix i
    assume "i < length (map (\<lambda>c. map textContent (filter (\<lambda>sp. cls sp = ''scramble-real'') (children c))) ?el)"
    then have i: "i < length chars" by (simp add: length_prepare_chars)
    then obtain gs where "children (?el ! i) = map fake_span gs @ [real_span (chars ! i)]"
      using prepared_cell[of i chars R k n] by blast
    then show "map (\<lambda>c. map textContent (filter (\<lambda>sp. cls sp = ''scramble-real'') (children c))) ?el ! i
        = map (\<lambda>original. [original]) chars ! i"
      using i by (simp add: length_prepare_chars filter_fake_spans)
  qed
  then show ?thesis
    by (simp add: scrambleGetChars_cells)
qed

text \<open>
  Claim C5. On an element prepared by \<^verbatim>\<open>scramblePrepare\<close>, \<^verbatim>\<open>scrambleReveal\<close>
  returns; letting its timers fire one after the other empties the timer list; and
  \<^verbatim>\<open>scrambleGetChars\<close> then returns the characters of the original text in order,
  the whitespace characters left out: one entry per character (a surrogate pair is one
  entry), and the entries put together are the code units of the text that are no
  whitespace. The same holds after any part of the timers, in any order, and any
  cancelling: the reveal never writes a text.
\<close>

theorem getChars_after_reveal:
  "\<exists>s'. scrambleReveal opts (new_session (scramblePrepare R str fakeCnt n)) = Some s'
      \<and> pending (run R' (replicate (length (pending s')) Tick) s') = []
      \<and> scrambleGetChars (cells (run R' (replicate (length (pending s')) Tick) s'))
          = filter (\<lambda>ch. \<not> is_whitespace ch) (characters str)
      \<and> concat (scrambleGetChars (cells (run R' (replicate (length (pending s')) Tick) s')))
          = filter (\<lambda>u. \<not> is_whitespace_unit u) str
      \<and> (\<forall>evs. list_all timer_event evs \<longrightarrow>
            scrambleGetChars (cells (run R' evs s')) = filter (\<lambda>ch. \<not> is_whitespace ch) (characters str))"
proof -
  let ?s = "new_session (scramblePrepare R str fakeCnt n)"
  let ?chars = "filter (\<lambda>ch. \<not> is_whitespace ch) (characters str)"
  have "list_all reveal_task (pending ?s)" by (simp add: new_session_def)
  from scrambleReveal_ok[OF this, of opts] obtain s' where
    s': "scrambleReveal opts ?s = Some s'" "skeleton (cells s') = skeleton (cells ?s)"
      "list_all reveal_task (pending s')"
    by blast
  have start: "scrambleGetChars (cells ?s) = ?chars"
    by (simp add: new_session_def scramblePrepare_def scrambleGetChars_prepare_chars splitText_def)
  have any: "scrambleGetChars (cells (run R' evs s')) = ?chars" if "list_all timer_event evs" for evs
  proof -
    have "skeleton (cells (run R' evs s')) = skeleton (cells ?s)"
      using reveal_run[OF s'(3) that, of R'] s'(2) by simp
    then have "scrambleGetChars (cells (run R' evs s')) = scrambleGetChars (cells ?s)"
      by (simp only: scrambleGetChars_skeleton)
    with start show ?thesis by simp
  qed
  have fin: "scrambleGetChars (cells (run R' (replicate (length (pending s')) Tick) s')) = ?chars"
    by (rule any) (rule timer_event_ticks)
  have "concat ?chars = filter (\<lambda>u. \<not> is_whitespace_unit u) str"
    using concat_splitText[of str] by (simp add: splitText_def)
  with fin have units: "concat (scrambleGetChars (cells (run R' (replicate (length (pending s')) Tick) s')))
      = filter (\<lambda>u. \<not> is_whitespace_unit u) str"
    by simp
  have "pending (run R' (replicate (length (pending s')) Tick) s') = []"
    by (rule run_all_ticks) simp
  with s'(1) any fin units show ?thesis by blast
qed

theorem getChars_after_reveal_witness:
  "\<exists>s'. scrambleReveal no_options
          (new_session (scramblePrepare (\<lambda>n. 0) (ascii ''a'' @ [9, 55357, 56832, 32] @ ascii ''b'') None 0)) = Some s'
      \<and> pending (run (\<lambda>n. 0) (replicate (length (pending s')) Tick) s') = []
      \<and> scrambleGetChars (cells (run (\<lambda>n. 0) (replicate (length (pending s')) Tick) s'))
          = [ascii ''a'', [55357, 56832], ascii ''b'']
      \<and> scrambleGetChars (cells (run (\<lambda>n. 0) [Fire 2, Cancel 0, Tick] s'))
          = [ascii ''a'', [55357, 56832], ascii ''b'']"
proof -
  let ?str = "ascii ''a'' @ [9, 55357, 56832, 32] @ ascii ''b''"
  have sp: "filter (\<lambda>ch. \<not> is_whitespace ch) (characters ?str) = [ascii ''a'', [55357, 56832], ascii ''b'']"
    by code_simp
  have ev: "list_all timer_event [Fire 2, Cancel 0, Tick]" by simp
  from getChars_after_reveal[of no_options "\<lambda>n. 0" ?str None 0 "\<lambda>n. 0"]
  obtain s' where s': "scrambleReveal no_options (new_session (scramblePrepare (\<lambda>n. 0) ?str None 0)) = Some s'"
    "pending (run (\<lambda>n. 0) (replicate (length (pending s')) Tick) s') = []"
    "scrambleGetChars (cells (run (\<lambda>n. 0) (replicate (length (pending s')) Tick) s'))
       = filter (\<lambda>ch. \<not> is_whitespace ch) (characters ?str)"
    "\<forall>evs. list_all timer_event evs \<longrightarrow>
       scrambleGetChars (cells (run (\<lambda>n. 0) evs s')) = filter (\<lambda>ch. \<not> is_whitespace ch) (characters ?str)"
    by blast
  from s'(4) ev have "scrambleGetChars (cells (run (\<lambda>n. 0) [Fire 2, Cancel 0, Tick] s'))
      = filter (\<lambda>ch. \<not> is_whitespace ch) (characters ?str)"
    by blast
  with s'(1,2,3) show ?thesis unfolding sp by blast
qed

section \<open>Navigation\<close>

lemma route_for_in_table: "route_for rs p = Some r \<Longrightarrow> r \<in> set rs"
  by (auto simp: route_for_def first_route_def dest: resolve_Some_in_table
      split: option.splits list.splits)

lemma listener_ok_route_for: "listener_ok rs (AfterHide (route_for rs p))"
  by (cases "route_for rs p") (simp_all add: listener_ok_def route_for_in_table)

lemma app_inv_after_hide:
  assumes "app_inv rs a" and "listener_ok rs (AfterHide route)"
  shows "app_inv rs (after_hide route a)"
  using assms
  by (cases route)
     (auto simp: app_inv_def after_hide_def listener_ok_def create_def show_page_def Let_def)

lemma app_inv_navigate:
  assumes "app_inv rs a"
  shows "app_inv rs (navigate p a)"
proof (cases "currentPage a")
  case None
  have "listener_ok rs (AfterHide (route_for (routes a) p))"
    using assms listener_ok_route_for by (simp add: app_inv_def)
  with assms None show ?thesis
    by (simp add: navigate_def app_inv_after_hide)
next
  case (Some current)
  have "listener_ok rs (AfterHide (route_for (routes a) p))"
    using assms listener_ok_route_for by (simp add: app_inv_def)
  with assms Some show ?thesis
    by (simp add: navigate_def hide_page_def app_inv_def)
qed

lemma app_inv_onNavigate:
  assumes "app_inv rs a"
  shows "app_inv rs (onNavigate p a)"
proof -
  from assms have "app_inv rs (a\<lparr>navigated := navigated a @ [p]\<rparr>)"
    by (simp add: app_inv_def)
  then show ?thesis unfolding onNavigate_def by (rule app_inv_navigate)
qed

lemma app_inv_location:
  "app_inv rs a \<Longrightarrow> app_inv rs (a\<lparr>location := h\<rparr>)"
  by (simp add: app_inv_def)

lemma app_inv_push:
  assumes "app_inv rs a" and "push U p a = Inr a'"
  shows "app_inv rs a'"
  using assms
  by (auto simp: push_def app_inv_onNavigate app_inv_location split: if_splits sum.splits)

lemma app_inv_click:
  assumes "app_inv rs a"
  shows "app_inv rs (click U href a)"
  using assms app_inv_push
  by (auto simp: click_def split: option.splits sum.splits)

lemma app_inv_go_back:
  assumes "app_inv rs a"
  shows "app_inv rs (go_back a)"
  using assms by (auto simp: go_back_def app_inv_onNavigate app_inv_location split: list.splits)

lemma app_inv_go_forward:
  assumes "app_inv rs a"
  shows "app_inv rs (go_forward a)"
  using assms by (auto simp: go_forward_def app_inv_onNavigate app_inv_location split: list.splits)

lemma app_inv_resume:
  assumes "app_inv rs a" and "listener_ok rs k"
  shows "app_inv rs (resume k a)"
proof (cases k)
  case (AfterHide route)
  with assms show ?thesis by (simp add: app_inv_after_hide)
next
  case (AfterShow page)
  with assms show ?thesis by (simp add: app_inv_def)
qed

lemma app_inv_fold_resume:
  assumes "app_inv rs a" and "list_all (listener_ok rs) ks"
  shows "app_inv rs (fold resume ks a)"
  using assms by (induction ks arbitrary: a) (simp_all add: app_inv_resume)

lemma app_inv_transitionEnd:
  assumes "app_inv rs a"
  shows "app_inv rs (transitionEnd a)"
proof -
  from assms have "app_inv rs (a\<lparr>listeners := []\<rparr>)" "list_all (listener_ok rs) (listeners a)"
    by (simp_all add: app_inv_def)
  then show ?thesis unfolding transitionEnd_def by (rule app_inv_fold_resume)
qed

lemma app_inv_step:
  assumes "app_inv rs a"
  shows "app_inv rs (app_step U ev a)"
  using assms
  by (cases ev)
     (simp_all add: app_inv_click app_inv_go_back app_inv_go_forward app_inv_transitionEnd)

lemma app_inv_run:
  assumes "app_inv rs a"
  shows "app_inv rs (app_run U evs a)"
  using assms unfolding app_run_def
  by (induction evs arbitrary: a) (simp_all add: app_inv_step)

lemma app_inv_boot: "app_inv rs (boot rs p)"
  unfolding boot_def by (rule app_inv_navigate) (simp add: app_inv_def)

text \<open>With a current page, a call of navigate only starts the hide and waits.\<close>

lemma navigate_waits:
  assumes "currentPage a = Some current"
  shows "navigate p a = hide_page (AfterHide (route_for (routes a) p)) a"
  using assms by (simp add: navigate_def)

lemma waiting_navigate:
  assumes "currentPage a = Some current"
  shows "innerHTML (contentEl (navigate p a)) = innerHTML (contentEl a)
       \<and> currentPage (navigate p a) = Some current"
  using assms by (simp add: navigate_def hide_page_def)

lemma waiting_onNavigate:
  assumes "currentPage a = Some current"
  shows "innerHTML (contentEl (onNavigate p a)) = innerHTML (contentEl a)
       \<and> currentPage (onNavigate p a) = Some current"
  using waiting_navigate[of "a\<lparr>navigated := navigated a @ [p]\<rparr>" current p] assms
  by (simp add: onNavigate_def)

lemma waiting_step:
  assumes "currentPage a = Some current" and "ev \<noteq> TransitionEnd"
  shows "innerHTML (contentEl (app_step U ev a)) = innerHTML (contentEl a)
       \<and> currentPage (app_step U ev a) = Some current"
proof (cases ev)
  case (Click href)
  have "innerHTML (contentEl (onNavigate p (a\<lparr>location := h\<rparr>))) = innerHTML (contentEl a)
      \<and> currentPage (onNavigate p (a\<lparr>location := h\<rparr>)) = Some current" for p h
    using waiting_onNavigate[of "a\<lparr>location := h\<rparr>" current p] assms(1) by simp
  then show ?thesis
    using Click assms(1)
    by (auto simp: click_def push_def split: option.splits sum.splits if_splits)
next
  case Back
  have "innerHTML (contentEl (onNavigate p (a\<lparr>location := h\<rparr>))) = innerHTML (contentEl a)
      \<and> currentPage (onNavigate p (a\<lparr>location := h\<rparr>)) = Some current" for p h
    using waiting_onNavigate[of "a\<lparr>location := h\<rparr>" current p] assms(1) by simp
  then show ?thesis
    using Back assms(1) by (auto simp: go_back_def split: list.splits)
next
  case Forward
  have "innerHTML (contentEl (onNavigate p (a\<lparr>location := h\<rparr>))) = innerHTML (contentEl a)
      \<and> currentPage (onNavigate p (a\<lparr>location := h\<rparr>)) = Some current" for p h
    using waiting_onNavigate[of "a\<lparr>location := h\<rparr>" current p] assms(1) by simp
  then show ?thesis
    using Forward assms(1) by (auto simp: go_forward_def split: list.splits)
next
  case TransitionEnd
  with assms(2) show ?thesis by simp
qed

lemma waiting_run:
  assumes "currentPage a = Some current" and "TransitionEnd \<notin> set evs"
  shows "innerHTML (contentEl (app_run U evs a)) = innerHTML (contentEl a)
       \<and> currentPage (app_run U evs a) = Some current"
  using assms
proof (induction evs arbitrary: a)
  case Nil
  then show ?case by (simp add: app_run_def)
next
  case (Cons ev evs)
  then have ev: "ev \<noteq> TransitionEnd" and evs: "TransitionEnd \<notin> set evs" by auto
  from waiting_step[OF Cons.prems(1) ev, of U]
  have 1: "innerHTML (contentEl (app_step U ev a)) = innerHTML (contentEl a)"
    and 2: "currentPage (app_step U ev a) = Some current"
    by simp_all
  have "app_run U (ev # evs) a = app_run U evs (app_step U ev a)"
    by (simp add: app_run_def)
  with Cons.IH[OF 2 evs] 1 show ?case by simp
qed

text \<open>
  Claim C8. While a page is current, no call of \<^verbatim>\<open>navigate\<close>, from a click or from
  the history, writes the container's markup or replaces the current page: each call
  starts the hide and waits behind its \<^verbatim>\<open>transitionend\<close> listener. When that event
  arrives, the waiting call injects the markup of its route in place of the old one and
  starts the show. From boot on, whatever the events, the container holds nothing or the
  markup of exactly one route.
\<close>

theorem navigate_awaits_hide:
  assumes "currentPage a = Some current"
    and "TransitionEnd \<notin> set evs"
    and "listeners a = []"
    and "route_for (routes a) p = Some r"
  shows "innerHTML (contentEl (app_run U evs a)) = innerHTML (contentEl a)
       \<and> currentPage (app_run U evs a) = Some current
       \<and> navigate p a = hide_page (AfterHide (route_for (routes a) p)) a
       \<and> innerHTML (contentEl (navigate p a)) = innerHTML (contentEl a)
       \<and> listeners (navigate p a) = [AfterHide (Some r)]
       \<and> innerHTML (contentEl (transitionEnd (navigate p a))) = html r
       \<and> c_opacity (contentEl (transitionEnd (navigate p a))) = ''1''
       \<and> listeners (transitionEnd (navigate p a)) = [AfterShow \<lparr>page_html = html r\<rparr>]
       \<and> currentPage (transitionEnd (transitionEnd (navigate p a))) = Some \<lparr>page_html = html r\<rparr>
       \<and> innerHTML (contentEl (app_run U evs' (boot rs p0))) \<in> set ([] # map html rs)"
proof (intro conjI)
  show "innerHTML (contentEl (app_run U evs a)) = innerHTML (contentEl a)"
    and "currentPage (app_run U evs a) = Some current"
    using waiting_run[OF assms(1,2), of U] by simp_all
  show n: "navigate p a = hide_page (AfterHide (route_for (routes a) p)) a"
    using assms(1) by (rule navigate_waits)
  show "innerHTML (contentEl (navigate p a)) = innerHTML (contentEl a)"
    using waiting_navigate[OF assms(1), of p] by simp
  show "listeners (navigate p a) = [AfterHide (Some r)]"
    unfolding n using assms(3,4) by (simp add: hide_page_def)
  show "innerHTML (contentEl (transitionEnd (navigate p a))) = html r"
    unfolding n using assms(3,4)
    by (simp add: hide_page_def transitionEnd_def after_hide_def create_def show_page_def)
  show "c_opacity (contentEl (transitionEnd (navigate p a))) = ''1''"
    unfolding n using assms(3,4)
    by (simp add: hide_page_def transitionEnd_def after_hide_def create_def show_page_def)
  show "listeners (transitionEnd (navigate p a)) = [AfterShow \<lparr>page_html = html r\<rparr>]"
    unfolding n using assms(3,4)
    by (simp add: hide_page_def transitionEnd_def after_hide_def create_def show_page_def)
  show "currentPage (transitionEnd (transitionEnd (navigate p a))) = Some \<lparr>page_html = html r\<rparr>"
    unfolding n using assms(3,4)
    by (simp add: hide_page_def transitionEnd_def after_hide_def create_def show_page_def)
  show "innerHTML (contentEl (app_run U evs' (boot rs p0))) \<in> set ([] # map html rs)"
    using app_inv_run[OF app_inv_boot[of rs p0], of U evs'] by (simp add: app_inv_def)
qed

theorem navigate_awaits_hide_witness:
  "currentPage (app_run (\<lambda>cur p. Some p) [TransitionEnd]
      (boot (app_routes (ascii ''H'') (ascii ''A'') (ascii ''W'')) (ascii ''/'')))
     = Some \<lparr>page_html = ascii ''H''\<rparr> \<and>
   innerHTML (contentEl (app_run (\<lambda>cur p. Some p) [Click (Some (ascii ''/about'')), Back]
      (app_run (\<lambda>cur p. Some p) [TransitionEnd]
        (boot (app_routes (ascii ''H'') (ascii ''A'') (ascii ''W'')) (ascii ''/'')))))
     = ascii ''H'' \<and>
   innerHTML (contentEl (transitionEnd (navigate (ascii ''/about'')
      (app_run (\<lambda>cur p. Some p) [TransitionEnd]
        (boot (app_routes (ascii ''H'') (ascii ''A'') (ascii ''W'')) (ascii ''/''))))))
     = ascii ''A''"
proof -
  let ?U = "\<lambda>cur p :: jsstring. Some p"
  let ?rs = "app_routes (ascii ''H'') (ascii ''A'') (ascii ''W'')"
  let ?a = "app_run ?U [TransitionEnd] (boot ?rs (ascii ''/''))"
  let ?r = "\<lparr>path = ascii ''/about'', label = ascii ''ABOUT'', html = ascii ''A''\<rparr>"
  have h1: "currentPage ?a = Some \<lparr>page_html = ascii ''H''\<rparr>" by code_simp
  have h2: "TransitionEnd \<notin> set [Click (Some (ascii ''/about'')), Back]" by simp
  have h3: "listeners ?a = []" by code_simp
  have h4: "route_for (routes ?a) (ascii ''/about'') = Some ?r" by code_simp
  have e: "innerHTML (contentEl ?a) = ascii ''H''" by code_simp
  note T = navigate_awaits_hide[OF h1 h2 h3 h4, of ?U]
  have 1: "innerHTML (contentEl (app_run ?U [Click (Some (ascii ''/about'')), Back] ?a)) = ascii ''H''"
    using T[THEN conjunct1] unfolding e .
  have 2: "innerHTML (contentEl (transitionEnd (navigate (ascii ''/about'') ?a))) = ascii ''A''"
    using T[THEN conjunct2, THEN conjunct2, THEN conjunct2, THEN conjunct2, THEN conjunct2, THEN conjunct1]
    by simp
  from h1 1 2 show ?thesis by (intro conjI)
qed

end
